theory Spec2Isabelle
  imports Complex_Main
begin

section \<open>Speaker-attributed transcript alignment: the model\<close>

text \<open>
  The definitions of this section embed the functions of
  \<^verbatim>\<open>scripts/speaker_recognition/ASR_with_SpeakerDiarization.py\<close>.
  Python integers are \<^typ>\<open>int\<close>, positions produced by \<^verbatim>\<open>enumerate\<close> and
  \<^verbatim>\<open>range\<close> are \<^typ>\<open>nat\<close> until they are stored (then \<^typ>\<open>int\<close>), times in
  seconds are exact rationals where the code only scales frame numbers and floats of an
  abstract ordered type where it compares them, and every exception the code can raise is a value of
  \<open>py_error\<close> returned on the left of a sum. The functions keep their names, but for
  the leading underscore of \<^verbatim>\<open>_get_spaces\<close> and \<^verbatim>\<open>_get_silence_timestamps\<close> and for the
  variable \<^verbatim>\<open>trans\<close>, written \<open>transc\<close>.
\<close>

datatype py_error =
  IndexError | KeyError | AssertionError | ValueError | ZeroDivisionError
  | UnboundLocalError | FileNotFoundError

subsection \<open>Frame decoder: \<^verbatim>\<open>WER.ctc_decoder_predictions_tensor\<close>\<close>

text \<open>
  The loop of lines 95--102, for one utterance. The arguments are \<^verbatim>\<open>self.blank_id\<close>,
  the local \<^verbatim>\<open>previous\<close>, the position \<^verbatim>\<open>pdx\<close>, the rest of \<^verbatim>\<open>prediction\<close>, and the
  two lists \<^verbatim>\<open>decoded_prediction\<close> and \<^verbatim>\<open>decoded_timing_list\<close>.
\<close>

fun ctc_loop :: "int \<Rightarrow> int \<Rightarrow> nat \<Rightarrow> int list \<Rightarrow> int list \<times> nat list \<Rightarrow> int list \<times> nat list" where
  "ctc_loop blank_id previous pdx [] (dp, dt) = (dp, dt)"
| "ctc_loop blank_id previous pdx (p # ps) (dp, dt) =
     (if (p \<noteq> previous \<or> previous = blank_id) \<and> p \<noteq> blank_id
      then ctc_loop blank_id p (Suc pdx) ps (dp @ [p], dt @ [pdx])
      else ctc_loop blank_id p (Suc pdx) ps (dp, dt))"

definition ctc_decode :: "int \<Rightarrow> int list \<Rightarrow> int list \<times> nat list" where
  "ctc_decode blank_id prediction = ctc_loop blank_id blank_id 0 prediction ([], [])"

text \<open>
  \<^verbatim>\<open>labels_map\<close> is the dictionary \<^verbatim>\<open>{i: vocabulary[i]}\<close>; a key outside
  \<^verbatim>\<open>range(len(vocabulary))\<close> raises.
\<close>

definition labels_map :: "string list \<Rightarrow> int \<Rightarrow> py_error + string" where
  "labels_map vocabulary c =
     (if 0 \<le> c \<and> c < int (length vocabulary) then Inr (vocabulary ! nat c) else Inl KeyError)"

fun decode_ids_to_tokens :: "string list \<Rightarrow> int list \<Rightarrow> py_error + string list" where
  "decode_ids_to_tokens vocabulary [] = Inr []"
| "decode_ids_to_tokens vocabulary (c # cs) =
     (if c \<noteq> int (length vocabulary)
      then (case labels_map vocabulary c of
              Inl e \<Rightarrow> Inl e
            | Inr s \<Rightarrow> (case decode_ids_to_tokens vocabulary cs of
                          Inl e \<Rightarrow> Inl e
                        | Inr ss \<Rightarrow> Inr (s # ss)))
      else decode_ids_to_tokens vocabulary cs)"

fun decode_ids_to_tokens_with_ts ::
  "string list \<Rightarrow> int list \<Rightarrow> nat list \<Rightarrow> py_error + (string list \<times> nat list)" where
  "decode_ids_to_tokens_with_ts vocabulary [] ts = Inr ([], [])"
| "decode_ids_to_tokens_with_ts vocabulary (c # cs) ts =
     (if c \<noteq> int (length vocabulary)
      then (case labels_map vocabulary c of
              Inl e \<Rightarrow> Inl e
            | Inr s \<Rightarrow> (case ts of
                          [] \<Rightarrow> Inl IndexError
                        | t # ts' \<Rightarrow> (case decode_ids_to_tokens_with_ts vocabulary cs ts' of
                                       Inl e \<Rightarrow> Inl e
                                     | Inr (ss, tss) \<Rightarrow> Inr (s # ss, t # tss))))
      else decode_ids_to_tokens_with_ts vocabulary cs (tl ts))"

definition decode_tokens_to_str_with_ts ::
  "string list \<Rightarrow> int list \<Rightarrow> nat list \<Rightarrow> py_error + (string \<times> nat list)" where
  "decode_tokens_to_str_with_ts vocabulary tokens timestamps =
     (case decode_ids_to_tokens_with_ts vocabulary tokens timestamps of
        Inl e \<Rightarrow> Inl e
      | Inr (hypothesis_list, timestamp_list) \<Rightarrow>
          (case decode_ids_to_tokens vocabulary tokens of
             Inl e \<Rightarrow> Inl e
           | Inr toks \<Rightarrow> Inr (concat toks, timestamp_list)))"

text \<open>
  One utterance of \<^verbatim>\<open>ctc_decoder_predictions_tensor\<close> with \<^verbatim>\<open>return_timestamps\<close> set:
  \<^verbatim>\<open>blank_id\<close> is \<^verbatim>\<open>len(vocabulary)\<close>, as the constructor of \<^verbatim>\<open>WER\<close> sets it.
\<close>

definition ctc_decoder_predictions :: "string list \<Rightarrow> int list \<Rightarrow> py_error + (string \<times> nat list)" where
  "ctc_decoder_predictions vocabulary prediction =
     (case ctc_decode (int (length vocabulary)) prediction of
        (decoded_prediction, decoded_timing_list) \<Rightarrow>
          decode_tokens_to_str_with_ts vocabulary decoded_prediction decoded_timing_list)"

subsection \<open>Silence segmenter: \<^verbatim>\<open>_get_silence_timestamps\<close>\<close>

text \<open>
  \<^verbatim>\<open>np.argmax\<close> of one row: the first position of the greatest entry; on an empty row it
  raises. The rows are compared only, so any linear order stands for the probabilities
  (a row holding a NaN is outside the model).
\<close>

fun argmax_from :: "'a::linorder \<Rightarrow> nat \<Rightarrow> nat \<Rightarrow> 'a list \<Rightarrow> nat" where
  "argmax_from best besti i [] = besti"
| "argmax_from best besti i (y # ys) =
     (if best < y then argmax_from y i (Suc i) ys else argmax_from best besti (Suc i) ys)"

definition argmax :: "'a::linorder list \<Rightarrow> py_error + nat" where
  "argmax row = (case row of [] \<Rightarrow> Inl ValueError | x # xs \<Rightarrow> Inr (argmax_from x 0 1 xs))"

text \<open>
  The body of the loop of lines 323--331, for the frame at \<^verbatim>\<open>idx\<close> whose arg-max is
  \<^verbatim>\<open>current_char_idx\<close>; the state is \<^verbatim>\<open>(state, idx_state, spaces)\<close>. The two
  \<^verbatim>\<open>if\<close> statements run one after the other, the second on the state the first left.
\<close>

definition silence_step ::
  "nat \<Rightarrow> string \<Rightarrow> nat \<Rightarrow> nat \<Rightarrow> string \<times> nat \<times> (int \<times> int) list \<Rightarrow> string \<times> nat \<times> (int \<times> int) list" where
  "silence_step symbol_idx state_symbol idx current_char_idx st =
     (case st of (state, idx_state, spaces) \<Rightarrow>
        (let (state1, spaces1) =
               (if state = state_symbol \<and> current_char_idx \<noteq> 0 \<and> current_char_idx \<noteq> symbol_idx
                then ('''', spaces @ [(int idx_state, int idx - 1)])
                else (state, spaces))
         in if state1 = ''''
            then (if current_char_idx = symbol_idx
                  then (state_symbol, idx, spaces1)
                  else (state1, idx_state, spaces1))
            else (state1, idx_state, spaces1)))"

fun silence_loop ::
  "nat \<Rightarrow> string \<Rightarrow> nat \<Rightarrow> 'a::linorder list list \<Rightarrow> string \<times> nat \<times> (int \<times> int) list
     \<Rightarrow> py_error + (string \<times> nat \<times> (int \<times> int) list)" where
  "silence_loop symbol_idx state_symbol idx [] st = Inr st"
| "silence_loop symbol_idx state_symbol idx (row # rows) st =
     (case argmax row of
        Inl e \<Rightarrow> Inl e
      | Inr current_char_idx \<Rightarrow>
          silence_loop symbol_idx state_symbol (Suc idx) rows
            (silence_step symbol_idx state_symbol idx current_char_idx st))"

definition get_silence_timestamps ::
  "'a::linorder list list \<Rightarrow> nat \<Rightarrow> string \<Rightarrow> py_error + (int \<times> int) list" where
  "get_silence_timestamps probs symbol_idx state_symbol =
     (case probs of
        [] \<Rightarrow> Inl IndexError
      | row0 # rows \<Rightarrow>
          (case argmax row0 of
             Inl e \<Rightarrow> Inl e
           | Inr c0 \<Rightarrow>
               (case silence_loop symbol_idx state_symbol 1 rows
                       (if c0 = symbol_idx then state_symbol else '''', 0, []) of
                  Inl e \<Rightarrow> Inl e
                | Inr (state, idx_state, spaces) \<Rightarrow>
                    Inr (if state = state_symbol
                         then spaces @ [(int idx_state, int (length probs) - 1)]
                         else spaces))))"

subsection \<open>Word timer: \<^verbatim>\<open>_get_spaces\<close> and \<^verbatim>\<open>get_speech_labels_list\<close>\<close>

record params =
  time_stride :: rat
  offset :: rat
  threshold :: rat

text \<open>
  The loop of lines 499--503: \<^verbatim>\<open>k\<close> is the position, the fourth argument the characters
  still to visit. \<^verbatim>\<open>timestamps[k+1]\<close> raises when the space is the last character.
\<close>

fun get_spaces_loop ::
  "string \<Rightarrow> int list \<Rightarrow> nat \<Rightarrow> string \<Rightarrow> nat \<times> (int \<times> int) list \<times> string list
     \<Rightarrow> py_error + (nat \<times> (int \<times> int) list \<times> string list)" where
  "get_spaces_loop transc timestamps k [] st = Inr st"
| "get_spaces_loop transc timestamps k (s # rest) (stt_idx, spaces, word_list) =
     (if s = CHR '' ''
      then (if Suc k < length timestamps
            then get_spaces_loop transc timestamps (Suc k) rest
                   (Suc k,
                    spaces @ [(timestamps ! k, timestamps ! Suc k - 1)],
                    word_list @ [take (k - stt_idx) (drop stt_idx transc)])
            else Inl IndexError)
      else get_spaces_loop transc timestamps (Suc k) rest (stt_idx, spaces, word_list))"

definition get_spaces :: "string \<Rightarrow> int list \<Rightarrow> py_error + ((int \<times> int) list \<times> string list)" where
  "get_spaces transc timestamps =
     (if \<not> (length transc > 0 \<and> length timestamps > 0) then Inl AssertionError
      else if length transc \<noteq> length timestamps then Inl AssertionError
      else (case get_spaces_loop transc timestamps 0 transc (0, [], []) of
              Inl e \<Rightarrow> Inl e
            | Inr (stt_idx, spaces, word_list) \<Rightarrow>
                Inr (spaces,
                     if length transc > stt_idx \<and> transc ! stt_idx \<noteq> CHR '' ''
                     then word_list @ [drop stt_idx transc]
                     else word_list)))"

text \<open>
  \<^verbatim>\<open>get_speech_label_and_write_VAD_rttm\<close>: the list \<^verbatim>\<open>speech_labels\<close>, each entry as the
  pair of times that the code formats into it; the line written to the file holds the same
  start and the duration. \<^verbatim>\<open>nframes\<close> is \<^verbatim>\<open>len(probs)\<close>.
\<close>

definition get_speech_label_and_write_VAD_rttm ::
  "nat \<Rightarrow> (int \<times> int) list \<Rightarrow> params \<Rightarrow> py_error + (rat \<times> rat) list" where
  "get_speech_label_and_write_VAD_rttm nframes non_speech P =
     (if time_stride P = 0 then Inl ZeroDivisionError
      else
        (let frame_offset = offset P / time_stride P;
             speech_labels =
               map (\<lambda>idx. ((of_int (snd (non_speech ! idx)) + frame_offset) * time_stride P,
                            (of_int (fst (non_speech ! Suc idx)) + frame_offset) * time_stride P))
                   [0 ..< length non_speech - 1]
         in if non_speech = [] then Inl IndexError
            else if snd (last non_speech) < int nframes
            then Inr (speech_labels @
                        [((of_int (snd (last non_speech)) + frame_offset) * time_stride P,
                          (of_nat nframes + frame_offset) * time_stride P)])
            else Inr speech_labels))"

text \<open>Lines 482--483: the window of every word, from the boundaries between words.\<close>

definition word_timetamps :: "int list \<Rightarrow> (int \<times> int) list \<Rightarrow> nat \<Rightarrow> py_error + (int \<times> int) list" where
  "word_timetamps timestamps spaces nframes =
     (let word_timetamps_middle =
            map (\<lambda>k. (snd (spaces ! k), fst (spaces ! Suc k))) [0 ..< length spaces - 1]
      in if timestamps = [] \<or> spaces = [] then Inl IndexError
         else Inr ([(timestamps ! 0, fst (spaces ! 0))] @ word_timetamps_middle
                     @ [(snd (last spaces), int nframes)]))"

text \<open>
  One turn of the loop of \<^verbatim>\<open>get_speech_labels_list\<close>, for the utterance
  \<^verbatim>\<open>(trans, logit, timestamps)\<close>. \<^verbatim>\<open>softmax\<close> is floating-point arithmetic and is not
  modelled: the argument \<^verbatim>\<open>probs\<close> is its result, of the shape of \<^verbatim>\<open>logit\<close>, so that
  \<^verbatim>\<open>logit.shape[0]\<close> is \<^verbatim>\<open>length probs\<close>; on an array without entries its \<^verbatim>\<open>np.max\<close>
  raises. The result is what the turn appends to \<^verbatim>\<open>trans_words_list\<close>, \<^verbatim>\<open>spaces_list\<close>
  and \<^verbatim>\<open>word_ts_list\<close>.
\<close>

definition get_speech_labels_utt ::
  "params \<Rightarrow> string \<times> rat list list \<times> int list
     \<Rightarrow> py_error + (string list \<times> (int \<times> int) list \<times> (int \<times> int) list)" where
  "get_speech_labels_utt P u =
     (case u of (transc, probs, timestamps) \<Rightarrow>
        if concat probs = [] then Inl ValueError
        else (case get_spaces transc timestamps of
          Inl e \<Rightarrow> Inl e
        | Inr (spaces, trans_words) \<Rightarrow>
           (case get_silence_timestamps probs 28 ''blank'' of
              Inl e \<Rightarrow> Inl e
            | Inr blanks \<Rightarrow>
               (let non_speech = filter (\<lambda>x. of_int (snd x - fst x) > threshold P) blanks
                in case get_speech_label_and_write_VAD_rttm (length probs) non_speech P of
                     Inl e \<Rightarrow> Inl e
                   | Inr speech_labels \<Rightarrow>
                      (case word_timetamps timestamps spaces (length probs) of
                         Inl e \<Rightarrow> Inl e
                       | Inr wts \<Rightarrow>
                           if length trans_words = length wts
                           then Inr (trans_words, spaces, wts)
                           else Inl AssertionError)))))"

fun get_speech_labels_list ::
  "params \<Rightarrow> (string \<times> rat list list \<times> int list) list
     \<Rightarrow> py_error + (string list list \<times> (int \<times> int) list list \<times> (int \<times> int) list list)" where
  "get_speech_labels_list P [] = Inr ([], [], [])"
| "get_speech_labels_list P (u # us) =
     (case get_speech_labels_utt P u of
        Inl e \<Rightarrow> Inl e
      | Inr (w, s, t) \<Rightarrow>
          (case get_speech_labels_list P us of
             Inl e \<Rightarrow> Inl e
           | Inr (ws, ss, ts) \<Rightarrow> Inr (w # ws, s # ss, t # ts)))"

subsection \<open>Speaker attributor: \<^verbatim>\<open>write_json_and_transcript\<close>\<close>

text \<open>
  The times of this function are Python floats. Their arithmetic is not modelled: the
  type \<open>'t\<close> stands for the floats with their order (a NaN is outside the model) and
  their zero, and the two expressions that compute a float from frame numbers are the
  fields of a record, so that every theorem below holds for the rounding of the machine as
  for any other:
  \<^item> \<open>pos_end_of (a, b)\<close> is
    \<^verbatim>\<open>params['offset'] + np.mean([a, b])*params['time_stride']\<close> of line 373;
  \<^item> \<open>round_time_of x\<close> is
    \<^verbatim>\<open>round(params['offset'] + x * params['time_stride'], params['round_float'])\<close> of lines
    418 and 419.
\<close>

record 't float_ops =
  pos_end_of :: "int \<times> int \<Rightarrow> 't"
  round_time_of :: "int \<Rightarrow> 't"

text \<open>
  A diarization label is the string \<^verbatim>\<open>"start end speaker"\<close>; the record holds its three
  fields after \<^verbatim>\<open>split()\<close>, the two times as the floats \<^verbatim>\<open>float\<close> reads from them.
\<close>

record 't label =
  start_point :: 't
  end_point :: 't
  speaker :: string

text \<open>
  \<^verbatim>\<open>string_out\<close> is kept as the list of the pieces appended to it: \<^verbatim>\<open>print_time\<close>
  appends the header of a turn, \<^verbatim>\<open>print_word\<close> a word.
\<close>

datatype 't out_item = PrintTime "'t label" | PrintWord string

record 't json_word =
  word :: string
  start_time :: 't
  end_time :: 't
  speaker_label :: string

definition add_json_to_dict :: "'t float_ops \<Rightarrow> string \<Rightarrow> int \<times> int \<Rightarrow> string \<Rightarrow> 't json_word" where
  "add_json_to_dict F w word_ts_stt_end spk =
     \<lparr> word = w,
       start_time = round_time_of F (fst word_ts_stt_end),
       end_time = round_time_of F (snd word_ts_stt_end),
       speaker_label = spk \<rparr>"

text \<open>
  The loop of lines 369--384 for one utterance. The state is
  \<^verbatim>\<open>(pos_prev, idx, (start_point, end_point, speaker), string_out, riva_dict['words'])\<close>;
  \<^verbatim>\<open>j\<close> counts the words. The test of line 374 is the comparison of two floats.
\<close>

type_synonym 't attr_state = "'t \<times> nat \<times> 't label \<times> 't out_item list \<times> 't json_word list"

fun attr_loop ::
  "('t::{linorder,zero}) float_ops \<Rightarrow> 't label list \<Rightarrow> (int \<times> int) list \<Rightarrow> string list \<Rightarrow> nat
     \<Rightarrow> (int \<times> int) list \<Rightarrow> 't attr_state \<Rightarrow> py_error + 't attr_state" where
  "attr_loop F labels spaces words j [] st = Inr st"
| "attr_loop F labels spaces words j (word_ts_stt_end # rest) (pos_prev, idx, cur, string_out, riva) =
     (if length spaces < j then Inl IndexError
      else
        (let space_stt_end =
               (if j = length spaces then (snd word_ts_stt_end, snd word_ts_stt_end)
                else spaces ! j);
             pos_end = pos_end_of F space_stt_end
         in if pos_prev < end_point cur
            then (if j < length words
                  then attr_loop F labels spaces words (Suc j) rest
                         (pos_end, idx, cur,
                          string_out @ [PrintWord (words ! j)],
                          riva @ [add_json_to_dict F (words ! j) word_ts_stt_end (speaker cur)])
                  else Inl IndexError)
            else (if Suc idx < length labels
                  then (if j < length words
                        then attr_loop F labels spaces words (Suc j) rest
                               (pos_end, Suc idx, labels ! Suc idx,
                                string_out @ [PrintTime (labels ! Suc idx), PrintWord (words ! j)],
                                riva @ [add_json_to_dict F (words ! j) word_ts_stt_end
                                          (speaker (labels ! Suc idx))])
                        else Inl IndexError)
                  else Inl IndexError)))"

text \<open>\<^verbatim>\<open>pos_prev\<close> starts as the integer 0, which line 374 compares with a float.\<close>

definition write_json_and_transcript_utt ::
  "('t::{linorder,zero}) float_ops \<Rightarrow> 't label list \<Rightarrow> (int \<times> int) list \<Rightarrow> string list
     \<Rightarrow> (int \<times> int) list \<Rightarrow> py_error + ('t out_item list \<times> 't json_word list)" where
  "write_json_and_transcript_utt F labels spaces words word_ts =
     (case labels of
        [] \<Rightarrow> Inl IndexError
      | l0 # _ \<Rightarrow>
          (case attr_loop F labels spaces words 0 word_ts (0, 0, l0, [PrintTime l0], []) of
             Inl e \<Rightarrow> Inl e
           | Inr (pos_prev, idx, cur, string_out, riva) \<Rightarrow> Inr (string_out, riva)))"

subsection \<open>Alignment scorer: \<^verbatim>\<open>eval_diarization\<close>\<close>

text \<open>\<^verbatim>\<open>str.split(sep)\<close> and \<^verbatim>\<open>sep.join\<close> for a separator of one character.\<close>

fun split_chr :: "char \<Rightarrow> string \<Rightarrow> string list" where
  "split_chr c [] = [[]]"
| "split_chr c (x # xs) =
     (if x = c then [] # split_chr c xs
      else (case split_chr c xs of
              [] \<Rightarrow> [[x]]
            | w # ws \<Rightarrow> (x # w) # ws))"

fun join_chr :: "char \<Rightarrow> string list \<Rightarrow> string" where
  "join_chr c [] = []"
| "join_chr c [w] = w"
| "join_chr c (w # ws) = w @ [c] @ join_chr c ws"

text \<open>\<^verbatim>\<open>os.path.basename\<close>: what follows the last slash.\<close>

definition basename :: "string \<Rightarrow> string" where
  "basename p = last (split_chr CHR ''/'' p)"

definition get_uniq_id_from_audio_path :: "string \<Rightarrow> string" where
  "get_uniq_id_from_audio_path audio_file_path =
     join_chr CHR ''.'' (butlast (split_chr CHR ''.'' (basename audio_file_path)))"

text \<open>
  \<^verbatim>\<open>os.path.join(output_dir, 'pred_rttms', uniq_id + '.rttm')\<close>; the last two components
  never start with a slash.
\<close>

definition path_join2 :: "string \<Rightarrow> string \<Rightarrow> string" where
  "path_join2 a b = (if a = [] then b else if last a = CHR ''/'' then a @ b else a @ ''/'' @ b)"

definition pred_rttm_path :: "string \<Rightarrow> string \<Rightarrow> string" where
  "pred_rttm_path output_dir uniq_id =
     path_join2 (path_join2 output_dir ''pred_rttms'') (uniq_id @ ''.rttm'')"

text \<open>
  What \<^verbatim>\<open>eval_diarization\<close> takes from outside this file: the global
  \<^verbatim>\<open>audio_rttm_map\<close> (identifier to the path of its reference), the files on disk (a path to
  the labels \<^verbatim>\<open>rttm_to_labels\<close> reads there, or nothing when the file does not exist),
  \<^verbatim>\<open>labels_to_pyannote_object\<close> and \<^verbatim>\<open>get_DER\<close>. The last two are defined in
  \<^verbatim>\<open>nemo.collections.asr.parts.utils.speaker_utils\<close> and stay parameters.
\<close>

record ('l, 'a, 'm) diar_env =
  audio_rttm_map :: "string \<rightharpoonup> string"
  rttm_files :: "string \<rightharpoonup> 'l"
  labels_to_pyannote_object :: "'l \<Rightarrow> 'a"
  get_DER :: "'a list \<Rightarrow> 'a list \<Rightarrow> 'm"

text \<open>
  The loop of lines 552--569. The state is \<^verbatim>\<open>diar_result_labels_list\<close> and, once the
  first turn has bound them, \<^verbatim>\<open>all_references\<close> and \<^verbatim>\<open>all_hypotheses\<close>: both are
  assigned the empty list in every turn (lines 555 and 564) before the turn appends to them.
\<close>

fun eval_loop ::
  "('l, 'a, 'm) diar_env \<Rightarrow> string \<Rightarrow> string list \<Rightarrow> 'l list \<times> ('a list \<times> 'a list) option
     \<Rightarrow> py_error + ('l list \<times> ('a list \<times> 'a list) option)" where
  "eval_loop E output_dir [] st = Inr st"
| "eval_loop E output_dir (audio_file_path # rest) (diar_result_labels_list, bound) =
     (let uniq_id = get_uniq_id_from_audio_path audio_file_path
      in case audio_rttm_map E uniq_id of
           None \<Rightarrow> Inl KeyError
         | Some rttm_file \<Rightarrow>
             (let all_references =
                    (case rttm_files E rttm_file of
                       Some ref_labels \<Rightarrow> [] @ [labels_to_pyannote_object E ref_labels]
                     | None \<Rightarrow> [])
              in case rttm_files E (pred_rttm_path output_dir uniq_id) of
                   None \<Rightarrow> Inl FileNotFoundError
                 | Some labels \<Rightarrow>
                     eval_loop E output_dir rest
                       (diar_result_labels_list @ [labels],
                        Some (all_references, [] @ [labels_to_pyannote_object E labels]))))"

text \<open>
  \<^verbatim>\<open>eval_diarization\<close> returns \<^verbatim>\<open>diar_result_labels_list\<close> and logs the four numbers of
  \<^verbatim>\<open>get_DER(all_references, all_hypotheses)\<close>; the model returns both. With no audio file
  the two lists are unbound at line 571.
\<close>

definition eval_diarization ::
  "('l, 'a, 'm) diar_env \<Rightarrow> string list \<Rightarrow> string \<Rightarrow> py_error + ('l list \<times> 'm)" where
  "eval_diarization E audio_file_list output_dir =
     (case eval_loop E output_dir audio_file_list ([], None) of
        Inl e \<Rightarrow> Inl e
      | Inr (diar_result_labels_list, None) \<Rightarrow> Inl UnboundLocalError
      | Inr (diar_result_labels_list, Some (all_references, all_hypotheses)) \<Rightarrow>
          Inr (diar_result_labels_list, get_DER E all_references all_hypotheses))"

section \<open>The specification's descriptions, as definitions\<close>

text \<open>
  The definitions of this section follow the words of the specification, not the code;
  the theorems below compare them with the model above.
\<close>

subsection \<open>The emission rule of the frame decoder\<close>

text \<open>
  The label before frame \<open>i\<close>: the blank at the first frame, the label of frame \<open>i - 1\<close>
  afterwards; frame \<open>i\<close> emits iff its label differs from the previous one or the
  previous one is the blank, and it is not the blank itself.
\<close>

definition spec_previous :: "int \<Rightarrow> int list \<Rightarrow> nat \<Rightarrow> int" where
  "spec_previous blank xs i = (if i = 0 then blank else xs ! (i - 1))"

definition spec_emits :: "int \<Rightarrow> int list \<Rightarrow> nat \<Rightarrow> bool" where
  "spec_emits blank xs i =
     ((xs ! i \<noteq> spec_previous blank xs i \<or> spec_previous blank xs i = blank) \<and> xs ! i \<noteq> blank)"

subsection \<open>Expansions of a hypothesis\<close>

text \<open>
  An expansion is given run by run: \<open>(b, k, t)\<close> stands for \<open>b\<close> blanks followed by the
  token \<open>t\<close> repeated \<open>k + 1\<close> times; \<open>n\<close> blanks may close the sequence. It is
  well formed when no token is the blank and two neighbouring runs of the same token have
  a blank between them.
\<close>

definition expansion :: "int \<Rightarrow> (nat \<times> nat \<times> int) list \<Rightarrow> nat \<Rightarrow> int list" where
  "expansion blank runs n =
     concat (map (\<lambda>(b, k, t). replicate b blank @ replicate (Suc k) t) runs) @ replicate n blank"

fun separated :: "(nat \<times> nat \<times> int) list \<Rightarrow> bool" where
  "separated ((b1, k1, t1) # (b2, k2, t2) # rest) =
     ((t1 = t2 \<longrightarrow> 0 < b2) \<and> separated ((b2, k2, t2) # rest))"
| "separated _ = True"

definition well_formed :: "int \<Rightarrow> (nat \<times> nat \<times> int) list \<Rightarrow> bool" where
  "well_formed blank runs = (list_all (\<lambda>(b, k, t). t \<noteq> blank) runs \<and> separated runs)"

text \<open>The position of the first frame of every run, counting from \<open>i\<close>.\<close>

fun run_starts :: "nat \<Rightarrow> (nat \<times> nat \<times> int) list \<Rightarrow> nat list" where
  "run_starts i [] = []"
| "run_starts i ((b, k, t) # rest) = (i + b) # run_starts (i + b + Suc k) rest"

subsection \<open>The two-state scan of the silence segmenter\<close>

datatype seg_state = IN_SILENCE | NOT_IN_SILENCE

text \<open>
  The scan over the arg-max classes of the frames, from frame \<open>i\<close>, with the entry frame of
  the open interval and the intervals closed so far.
\<close>

fun spec_scan ::
  "nat \<Rightarrow> nat list \<Rightarrow> nat \<Rightarrow> seg_state \<Rightarrow> nat \<Rightarrow> (int \<times> int) list \<Rightarrow> (int \<times> int) list" where
  "spec_scan sil [] i IN_SILENCE entry acc = acc @ [(int entry, int i - 1)]"
| "spec_scan sil [] i NOT_IN_SILENCE entry acc = acc"
| "spec_scan sil (c # cs) i NOT_IN_SILENCE entry acc =
     (if c = sil then spec_scan sil cs (Suc i) IN_SILENCE i acc
      else spec_scan sil cs (Suc i) NOT_IN_SILENCE entry acc)"
| "spec_scan sil (c # cs) i IN_SILENCE entry acc =
     (if c \<noteq> 0 \<and> c \<noteq> sil
      then spec_scan sil cs (Suc i) NOT_IN_SILENCE entry (acc @ [(int entry, int i - 1)])
      else spec_scan sil cs (Suc i) IN_SILENCE entry acc)"

subsection \<open>The turn pointer of the speaker attributor\<close>

text \<open>
  The position at which word \<open>j\<close> ends, as line 373 computes it: from the boundary that
  follows the word or, for the word after the last boundary, from its own end frame taken
  twice.
\<close>

definition word_end_pos :: "'t float_ops \<Rightarrow> (int \<times> int) list \<Rightarrow> (int \<times> int) list \<Rightarrow> nat \<Rightarrow> 't" where
  "word_end_pos F spaces word_ts j =
     pos_end_of F (if j = length spaces then (snd (word_ts ! j), snd (word_ts ! j)) else spaces ! j)"

text \<open>
  The turn of each of the next \<open>n\<close> words, from word \<open>j\<close>: the pointer stays when the
  position at which the previous word ended is below the end of the current turn, and
  moves to the next turn otherwise; the word is given the turn at the pointer.
\<close>

fun turn_trace ::
  "(nat \<Rightarrow> 't::linorder) \<Rightarrow> 't label list \<Rightarrow> nat \<Rightarrow> 't \<Rightarrow> nat \<Rightarrow> nat \<Rightarrow> nat list" where
  "turn_trace pos labels j pos_prev idx 0 = []"
| "turn_trace pos labels j pos_prev idx (Suc n) =
     (let idx' = (if pos_prev < end_point (labels ! idx) then idx else Suc idx)
      in idx' # turn_trace pos labels (Suc j) (pos j) idx' n)"

section \<open>Concrete inputs\<close>

text \<open>
  A frame of 29 classes whose arg-max is the class \<open>c\<close>, and the frames of a sequence of
  such classes.
\<close>

definition class_frame :: "nat \<Rightarrow> rat list" where
  "class_frame c = replicate c 0 @ [1] @ replicate (28 - c) 0"

definition class_frames :: "nat list \<Rightarrow> rat list list" where
  "class_frames cs = map class_frame cs"

definition unit_params :: params where
  "unit_params = \<lparr> time_stride = 1, offset = 0, threshold = 1 \<rparr>"

text \<open>
  Two recordings with their reference and predicted labels on disk; the scorer is the
  pair of the two lists it is given, so that the arguments of \<^verbatim>\<open>get_DER\<close> can be read
  off the result.
\<close>

definition demo_env :: "(string, string, string list \<times> string list) diar_env" where
  "demo_env = \<lparr> audio_rttm_map = [''a'' \<mapsto> ''ref/a.rttm'', ''b'' \<mapsto> ''ref/b.rttm''],
                rttm_files = [''ref/a.rttm'' \<mapsto> ''ref a'', ''ref/b.rttm'' \<mapsto> ''ref b'',
                              ''out/pred_rttms/a.rttm'' \<mapsto> ''hyp a'',
                              ''out/pred_rttms/b.rttm'' \<mapsto> ''hyp b''],
                labels_to_pyannote_object = (\<lambda>l. l),
                get_DER = (\<lambda>refs hyps. (refs, hyps)) \<rparr>"

text \<open>
  The float operations at stride 1 and offset 0, for any number of digits of \<^verbatim>\<open>round\<close>:
  the position of a boundary is the half sum of its ends and the time of a frame is its
  number. On frame numbers below \<open>2^52\<close> these integers and half integers are floats, and
  the sums, the halving, the product by 1 and \<^verbatim>\<open>round\<close> return them exactly, so on such
  inputs the rationals below are the values the machine computes.
\<close>

definition frame_ops :: "rat float_ops" where
  "frame_ops = \<lparr> pos_end_of = (\<lambda>(a, b). (of_int a + of_int b) / 2),
                 round_time_of = (\<lambda>x. of_int x) \<rparr>"

text \<open>The two turns of the specification's example, and a single late turn.\<close>

definition turns_AB :: "rat label list" where
  "turns_AB = [\<lparr>start_point = 0, end_point = 15, speaker = ''A''\<rparr>,
               \<lparr>start_point = 15, end_point = 30, speaker = ''B''\<rparr>]"


section \<open>Auxiliary notions of the proofs\<close>

text \<open>
  The emission test of the decoder's loop when it starts with an arbitrary \<open>prev\<close>;
  at \<open>prev = blank\<close> it is \<open>spec_emits\<close>.
\<close>

definition emit_from :: "int \<Rightarrow> int \<Rightarrow> int list \<Rightarrow> nat \<Rightarrow> bool" where
  "emit_from blank prev ps k =
     ((ps ! k \<noteq> (if k = 0 then prev else ps ! (k - 1)) \<or> (if k = 0 then prev else ps ! (k - 1)) = blank)
        \<and> ps ! k \<noteq> blank)"

text \<open>The first run of an expansion may follow the label \<open>prev\<close>.\<close>

definition first_ok :: "int \<Rightarrow> int \<Rightarrow> (nat \<times> nat \<times> int) list \<Rightarrow> bool" where
  "first_ok blank prev runs =
     (case runs of [] \<Rightarrow> True | (b, k, t) # _ \<Rightarrow> (t = prev \<longrightarrow> 0 < b \<or> prev = blank))"

text \<open>The string the code keeps in \<^verbatim>\<open>state\<close> for each of the two states.\<close>

definition state_of :: "string \<Rightarrow> seg_state \<Rightarrow> string" where
  "state_of state_symbol s = (case s of IN_SILENCE \<Rightarrow> state_symbol | NOT_IN_SILENCE \<Rightarrow> '''')"

text \<open>Whether a piece of \<^verbatim>\<open>string_out\<close> is the header of a turn.\<close>

fun is_print_time :: "'t out_item \<Rightarrow> bool" where
  "is_print_time (PrintTime l) = True"
| "is_print_time (PrintWord w) = False"

section \<open>The frame decoder\<close>

lemma emit_from_Suc: "emit_from blank prev (p # ps) (Suc k) = emit_from blank p ps k"
  by (cases k) (simp_all add: emit_from_def)

lemma upt_0_Suc_conv: "[0 ..< Suc n] = 0 # map Suc [0 ..< n]"
  by (simp add: upt_conv_Cons map_Suc_upt del: upt_Suc)

lemma filter_emit_Cons:
  "filter (emit_from blank prev (p # ps)) [0 ..< Suc (length ps)] =
     (if emit_from blank prev (p # ps) 0 then [0] else [])
       @ map Suc (filter (emit_from blank p ps) [0 ..< length ps])"
  unfolding upt_0_Suc_conv
  by (simp add: filter_map comp_def emit_from_Suc)

lemma ctc_loop_filter:
  "ctc_loop blank prev i ps (dp, dt) =
     (dp @ map (\<lambda>k. ps ! k) (filter (emit_from blank prev ps) [0 ..< length ps]),
      dt @ map (\<lambda>k. i + k) (filter (emit_from blank prev ps) [0 ..< length ps]))"
proof (induction ps arbitrary: prev i dp dt)
  case Nil
  then show ?case by simp
next
  case (Cons p ps)
  have e0: "emit_from blank prev (p # ps) 0 = ((p \<noteq> prev \<or> prev = blank) \<and> p \<noteq> blank)"
    by (simp add: emit_from_def)
  show ?case
    unfolding length_Cons filter_emit_Cons
    by (simp add: Cons.IH e0 comp_def)
qed

lemma emit_from_spec: "emit_from blank blank xs = spec_emits blank xs"
  by (rule ext) (simp add: emit_from_def spec_emits_def spec_previous_def)

lemma ctc_loop_blanks: "ctc_loop blank prev i (replicate n blank) acc = acc"
  by (induction n arbitrary: prev i) (cases acc; simp)+

lemma ctc_loop_append:
  "ctc_loop blank prev i (xs @ ys) acc =
     ctc_loop blank (last (prev # xs)) (i + length xs) ys (ctc_loop blank prev i xs acc)"
proof (induction xs arbitrary: prev i acc)
  case Nil
  obtain dp dt where acc: "acc = (dp, dt)" by (cases acc)
  show ?case by (simp add: acc)
next
  case (Cons x xs)
  obtain dp dt where acc: "acc = (dp, dt)" by (cases acc)
  show ?case by (simp add: acc Cons.IH)
qed

lemma ctc_loop_same: "t \<noteq> blank \<Longrightarrow> ctc_loop blank t i (replicate k t) acc = acc"
  by (induction k arbitrary: i) (cases acc; simp)+

lemma ctc_loop_run:
  assumes "t \<noteq> blank" and "t \<noteq> prev \<or> prev = blank"
  shows "ctc_loop blank prev i (replicate (Suc k) t) (dp, dt) = (dp @ [t], dt @ [i])"
  using assms by (auto simp: ctc_loop_same)

lemma last_blanks: "last (prev # replicate b blank) = (if b = 0 then prev else blank)"
  by (cases b) simp_all

lemma ctc_loop_blanks_run:
  assumes "t \<noteq> blank" and "t = prev \<longrightarrow> 0 < b \<or> prev = blank"
  shows "ctc_loop blank prev i (replicate b blank @ replicate (Suc k) t) (dp, dt)
           = (dp @ [t], dt @ [i + b])"
proof -
  have c: "t \<noteq> last (prev # replicate b blank) \<or> last (prev # replicate b blank) = blank"
    using assms by (auto simp: last_blanks)
  have "ctc_loop blank prev i (replicate b blank @ replicate (Suc k) t) (dp, dt)
          = ctc_loop blank (last (prev # replicate b blank)) (i + b) (replicate (Suc k) t) (dp, dt)"
    by (simp only: ctc_loop_append ctc_loop_blanks length_replicate)
  also have "\<dots> = (dp @ [t], dt @ [i + b])"
    by (rule ctc_loop_run[OF assms(1) c])
  finally show ?thesis .
qed

lemma ctc_loop_runs:
  assumes "well_formed blank runs" and "first_ok blank prev runs"
  shows "ctc_loop blank prev i
           (concat (map (\<lambda>(b, k, t). replicate b blank @ replicate (Suc k) t) runs) @ replicate n blank)
           (dp, dt)
         = (dp @ map (\<lambda>(b, k, t). t) runs, dt @ run_starts i runs)"
  using assms
proof (induction runs arbitrary: prev i dp dt)
  case Nil
  then show ?case by (simp add: ctc_loop_blanks)
next
  case (Cons r runs)
  obtain b k t where r: "r = (b, k, t)" by (cases r)
  from Cons.prems have t: "t \<noteq> blank" and sep: "separated ((b, k, t) # runs)"
    and wf: "list_all (\<lambda>(b, k, t). t \<noteq> blank) runs"
    by (simp_all add: well_formed_def r)
  from Cons.prems(2) have fo: "t = prev \<longrightarrow> 0 < b \<or> prev = blank"
    by (simp add: first_ok_def r)
  have wf': "well_formed blank runs"
    using sep wf by (cases runs) (auto simp: well_formed_def)
  have fo': "first_ok blank t runs"
    using sep t by (cases runs) (auto simp: first_ok_def)
  have lastrun: "last (prev # replicate b blank @ replicate (Suc k) t) = t"
    by simp
  have "ctc_loop blank prev i
          ((replicate b blank @ replicate (Suc k) t)
             @ (concat (map (\<lambda>(b, k, t). replicate b blank @ replicate (Suc k) t) runs) @ replicate n blank))
          (dp, dt)
        = ctc_loop blank t (i + b + Suc k)
            (concat (map (\<lambda>(b, k, t). replicate b blank @ replicate (Suc k) t) runs) @ replicate n blank)
            (dp @ [t], dt @ [i + b])"
    unfolding ctc_loop_append[of blank prev i "replicate b blank @ replicate (Suc k) t"]
      lastrun ctc_loop_blanks_run[OF t fo]
    by (simp add: add.assoc)
  also have "\<dots> = ((dp @ [t]) @ map (\<lambda>(b, k, t). t) runs, (dt @ [i + b]) @ run_starts (i + b + Suc k) runs)"
    by (rule Cons.IH[OF wf' fo'])
  finally show ?case by (simp add: r)
qed

lemma first_ok_blank: "first_ok blank blank runs"
  by (auto simp: first_ok_def split: list.splits)

lemma ctc_decode_expansion:
  "well_formed blank runs \<Longrightarrow>
     ctc_decode blank (expansion blank runs n) = (map (\<lambda>(b, k, t). t) runs, run_starts 0 runs)"
  unfolding ctc_decode_def expansion_def
  using ctc_loop_runs[of blank runs blank 0 n "[]" "[]"] first_ok_blank by simp

lemma length_run_starts: "length (run_starts i runs) = length runs"
  by (induction i runs rule: run_starts.induct) simp_all

lemma decode_ids_ok:
  "list_all (\<lambda>c. 0 \<le> c \<and> c < int (length vocabulary)) tokens \<Longrightarrow>
     decode_ids_to_tokens vocabulary tokens = Inr (map (\<lambda>c. vocabulary ! nat c) tokens)"
  by (induction tokens) (simp_all add: labels_map_def)

lemma decode_ids_ts_ok:
  "list_all (\<lambda>c. 0 \<le> c \<and> c < int (length vocabulary)) tokens \<Longrightarrow> length ts = length tokens \<Longrightarrow>
     decode_ids_to_tokens_with_ts vocabulary tokens ts = Inr (map (\<lambda>c. vocabulary ! nat c) tokens, ts)"
proof (induction tokens arbitrary: ts)
  case Nil
  then show ?case by simp
next
  case (Cons c cs)
  then obtain t ts' where "ts = t # ts'" by (cases ts) auto
  with Cons show ?case by (simp add: labels_map_def)
qed

lemma predictions_expansion:
  assumes wf: "well_formed (int (length vocabulary)) runs"
    and voc: "list_all (\<lambda>(b, k, t). 0 \<le> t \<and> t < int (length vocabulary)) runs"
  shows "ctc_decoder_predictions vocabulary (expansion (int (length vocabulary)) runs n)
           = Inr (concat (map (\<lambda>(b, k, t). vocabulary ! nat t) runs), run_starts 0 runs)"
proof -
  have toks: "list_all (\<lambda>c. 0 \<le> c \<and> c < int (length vocabulary)) (map (\<lambda>(b, k, t). t) runs)"
    using voc by (induction runs) auto
  have len: "length (run_starts 0 runs) = length (map (\<lambda>(b, k, t). t) runs)"
    by (simp add: length_run_starts)
  have m: "map (\<lambda>c. vocabulary ! nat c) (map (\<lambda>(b, k, t). t) runs) = map (\<lambda>(b, k, t). vocabulary ! nat t) runs"
    by (induction runs) auto
  show ?thesis
    unfolding ctc_decoder_predictions_def ctc_decode_expansion[OF wf]
    by (simp add: decode_tokens_to_str_with_ts_def decode_ids_ts_ok[OF toks len] decode_ids_ok[OF toks] m
          del: map_map)
qed

text \<open>
  Claim C2. The frame decoder starts with the blank as the previous label; frame \<open>i\<close>
  with label \<open>p\<close> emits \<open>p\<close> and records \<open>i\<close> iff \<open>p\<close> differs from the previous label or
  the previous label is the blank, and \<open>p\<close> is not the blank; the previous label then
  becomes \<open>p\<close>. So the decoded tokens and timestamps are the labels and the positions of
  the frames that satisfy \<open>spec_emits\<close>, in order. The sequence \<open>[5,5,0,0,7,7,7,0,5]\<close>
  with blank \<open>0\<close> decodes to the tokens \<open>[5,7,5]\<close> with the timestamps \<open>[0,4,8]\<close>, and an
  input of blanks only gives the empty hypothesis, without an error.
\<close>

theorem ctc_decode_emission_rule:
  "ctc_decode blank xs =
     (map (\<lambda>i. xs ! i) (filter (spec_emits blank xs) [0 ..< length xs]),
      filter (spec_emits blank xs) [0 ..< length xs])
   \<and> ctc_decode 0 [5, 5, 0, 0, 7, 7, 7, 0, 5] = ([5, 7, 5], [0, 4, 8])
   \<and> ctc_decode blank (replicate n blank) = ([], [])
   \<and> ctc_decoder_predictions vocabulary (replicate n (int (length vocabulary))) = Inr ('''', [])"
proof -
  have "ctc_decode blank xs =
     (map (\<lambda>i. xs ! i) (filter (spec_emits blank xs) [0 ..< length xs]),
      filter (spec_emits blank xs) [0 ..< length xs])"
    by (simp add: ctc_decode_def ctc_loop_filter emit_from_spec)
  moreover have "ctc_decode 0 [5, 5, 0, 0, 7, 7, 7, 0, 5] = ([5, 7, 5], [0, 4, 8])"
    by (simp add: ctc_decode_def)
  moreover have "ctc_decode blank (replicate n blank) = ([], [])"
    by (simp add: ctc_decode_def ctc_loop_blanks)
  moreover have "ctc_decoder_predictions vocabulary (replicate n (int (length vocabulary))) = Inr ('''', [])"
    by (simp add: ctc_decoder_predictions_def ctc_decode_def ctc_loop_blanks
          decode_tokens_to_str_with_ts_def)
  ultimately show ?thesis by blast
qed

theorem ctc_decode_emission_rule_witness:
  "(map (\<lambda>i. [5, 5, 0, 0, 7, 7, 7, 0, 5 :: int] ! i)
        (filter (spec_emits 0 [5, 5, 0, 0, 7, 7, 7, 0, 5]) [0 ..< 9]),
    filter (spec_emits 0 [5, 5, 0, 0, 7, 7, 7, 0, 5]) [0 ..< 9])
     = ([5, 7, 5], [0, 4, 8])
   \<and> ctc_decoder_predictions [''a'', ''b''] [2, 2, 2] = Inr ('''', [])"
proof -
  have len: "length [5, 5, 0, 0, 7, 7, 7, 0, 5 :: int] = 9"
    by simp
  have rep: "replicate 3 (int (length [''a'', ''b''])) = [2, 2, 2]"
    by (simp add: numeral_3_eq_3)
  note rule = ctc_decode_emission_rule[of 0 "[5, 5, 0, 0, 7, 7, 7, 0, 5]" 3 "[''a'', ''b'']",
      unfolded len rep]
  from rule have a: "ctc_decode 0 [5, 5, 0, 0, 7, 7, 7, 0, 5] =
      (map (\<lambda>i. [5, 5, 0, 0, 7, 7, 7, 0, 5] ! i)
           (filter (spec_emits 0 [5, 5, 0, 0, 7, 7, 7, 0, 5]) [0 ..< 9]),
       filter (spec_emits 0 [5, 5, 0, 0, 7, 7, 7, 0, 5]) [0 ..< 9])"
    by (rule conjunct1)
  from rule have b: "ctc_decode 0 [5, 5, 0, 0, 7, 7, 7, 0, 5] = ([5, 7, 5], [0, 4, 8])"
    by blast
  from rule have c: "ctc_decoder_predictions [''a'', ''b''] [2, 2, 2] = Inr ('''', [])"
    by blast
  from a[symmetric] b have "(map (\<lambda>i. [5, 5, 0, 0, 7, 7, 7, 0, 5 :: int] ! i)
        (filter (spec_emits 0 [5, 5, 0, 0, 7, 7, 7, 0, 5]) [0 ..< 9]),
    filter (spec_emits 0 [5, 5, 0, 0, 7, 7, 7, 0, 5]) [0 ..< 9])
     = ([5, 7, 5], [0, 4, 8])"
    by (rule trans)
  then show ?thesis using c by (rule conjI)
qed

text \<open>
  Claim C9. Decoding an expansion of a hypothesis (every token repeated at least once,
  neighbouring runs of the same token separated by at least one blank, blanks allowed
  anywhere between runs) returns the tokens of the hypothesis, hence its text, with
  exactly one timestamp per token: the first frame of the token's run.
\<close>

theorem ctc_collapse_of_expansion:
  assumes "well_formed (int (length vocabulary)) runs"
    and "list_all (\<lambda>(b, k, t). 0 \<le> t \<and> t < int (length vocabulary)) runs"
  shows "ctc_decode (int (length vocabulary)) (expansion (int (length vocabulary)) runs n)
           = (map (\<lambda>(b, k, t). t) runs, run_starts 0 runs)
         \<and> ctc_decoder_predictions vocabulary (expansion (int (length vocabulary)) runs n)
           = Inr (concat (map (\<lambda>(b, k, t). vocabulary ! nat t) runs), run_starts 0 runs)
         \<and> length (run_starts 0 runs) = length runs"
  using assms
  by (simp add: ctc_decode_expansion predictions_expansion length_run_starts)

theorem ctc_collapse_of_expansion_witness:
  "well_formed 2 [(0, 1, 0), (1, 0, 0), (0, 2, 1)]
   \<and> expansion 2 [(0, 1, 0), (1, 0, 0), (0, 2, 1)] 1 = [0, 0, 2, 0, 1, 1, 1, 2]
   \<and> ctc_decode 2 [0, 0, 2, 0, 1, 1, 1, 2] = ([0, 0, 1], [0, 3, 4])
   \<and> ctc_decoder_predictions [''a'', ''b''] [0, 0, 2, 0, 1, 1, 1, 2] = Inr (''aab'', [0, 3, 4])"
proof -
  have wf: "well_formed (int (length [''a'', ''b''])) [(0, 1, 0), (1, 0, 0), (0, 2, 1)]"
    by (simp add: well_formed_def)
  have voc: "list_all (\<lambda>(b, k, t). 0 \<le> t \<and> t < int (length [''a'', ''b'']))
               [(0 :: nat, 1 :: nat, 0 :: int), (1, 0, 0), (0, 2, 1)]"
    by simp
  have ex: "expansion 2 [(0, 1, 0), (1, 0, 0), (0, 2, 1)] 1 = [0, 0, 2, 0, 1, 1, 1, 2]"
    by (simp add: expansion_def numeral_2_eq_2)
  show ?thesis
    using ctc_collapse_of_expansion[OF wf voc, of 1] wf ex
    by (simp add: numeral_2_eq_2)
qed

section \<open>The silence segmenter\<close>

lemma silence_step_spec:
  assumes "state_symbol \<noteq> ''''"
  shows "\<exists>s' entry' acc'.
           silence_step sil state_symbol i c (state_of state_symbol s, entry, acc)
             = (state_of state_symbol s', entry', acc')
           \<and> spec_scan sil (c # cs) i s entry acc = spec_scan sil cs (Suc i) s' entry' acc'"
proof (cases s)
  case IN_SILENCE
  show ?thesis
  proof (cases "c \<noteq> 0 \<and> c \<noteq> sil")
    case True
    then have "silence_step sil state_symbol i c (state_of state_symbol s, entry, acc)
                 = (state_of state_symbol NOT_IN_SILENCE, entry, acc @ [(int entry, int i - 1)])"
      using assms by (simp add: silence_step_def state_of_def IN_SILENCE)
    moreover have "spec_scan sil (c # cs) i s entry acc
                     = spec_scan sil cs (Suc i) NOT_IN_SILENCE entry (acc @ [(int entry, int i - 1)])"
      using True by (simp add: IN_SILENCE)
    ultimately show ?thesis by blast
  next
    case False
    then have "silence_step sil state_symbol i c (state_of state_symbol s, entry, acc)
                 = (state_of state_symbol IN_SILENCE, entry, acc)"
      using assms by (auto simp: silence_step_def state_of_def IN_SILENCE)
    moreover have "spec_scan sil (c # cs) i s entry acc = spec_scan sil cs (Suc i) IN_SILENCE entry acc"
      using False by (auto simp: IN_SILENCE)
    ultimately show ?thesis by blast
  qed
next
  case NOT_IN_SILENCE
  show ?thesis
  proof (cases "c = sil")
    case True
    then have "silence_step sil state_symbol i c (state_of state_symbol s, entry, acc)
                 = (state_of state_symbol IN_SILENCE, i, acc)"
      using assms by (auto simp: silence_step_def state_of_def NOT_IN_SILENCE)
    moreover have "spec_scan sil (c # cs) i s entry acc = spec_scan sil cs (Suc i) IN_SILENCE i acc"
      using True by (simp add: NOT_IN_SILENCE)
    ultimately show ?thesis by blast
  next
    case False
    then have "silence_step sil state_symbol i c (state_of state_symbol s, entry, acc)
                 = (state_of state_symbol NOT_IN_SILENCE, entry, acc)"
      using assms by (auto simp: silence_step_def state_of_def NOT_IN_SILENCE)
    moreover have "spec_scan sil (c # cs) i s entry acc = spec_scan sil cs (Suc i) NOT_IN_SILENCE entry acc"
      using False by (simp add: NOT_IN_SILENCE)
    ultimately show ?thesis by blast
  qed
qed

lemma silence_loop_spec:
  assumes "state_symbol \<noteq> ''''" and "map argmax rows = map Inr cs"
  shows "\<exists>s' entry' acc'.
           silence_loop sil state_symbol i rows (state_of state_symbol s, entry, acc)
             = Inr (state_of state_symbol s', entry', acc')
           \<and> spec_scan sil cs i s entry acc = spec_scan sil [] (i + length rows) s' entry' acc'"
  using assms(2)
proof (induction rows arbitrary: cs i s entry acc)
  case Nil
  then have "cs = []" by simp
  then show ?case by auto
next
  case (Cons row rows)
  then obtain c cs' where cs: "cs = c # cs'" and c: "argmax row = Inr c"
    and rest: "map argmax rows = map Inr cs'"
    by (cases cs) auto
  from silence_step_spec[OF assms(1), of sil i c s entry acc cs']
  obtain s1 entry1 acc1 where
    step: "silence_step sil state_symbol i c (state_of state_symbol s, entry, acc)
             = (state_of state_symbol s1, entry1, acc1)"
    and sp: "spec_scan sil (c # cs') i s entry acc = spec_scan sil cs' (Suc i) s1 entry1 acc1"
    by blast
  from Cons.IH[OF rest, of "Suc i" s1 entry1 acc1]
  obtain s' entry' acc' where
    l: "silence_loop sil state_symbol (Suc i) rows (state_of state_symbol s1, entry1, acc1)
          = Inr (state_of state_symbol s', entry', acc')"
    and sp': "spec_scan sil cs' (Suc i) s1 entry1 acc1 = spec_scan sil [] (Suc i + length rows) s' entry' acc'"
    by blast
  have "silence_loop sil state_symbol i (row # rows) (state_of state_symbol s, entry, acc)
          = Inr (state_of state_symbol s', entry', acc')"
    by (simp add: c step l)
  moreover have "spec_scan sil cs i s entry acc = spec_scan sil [] (i + length (row # rows)) s' entry' acc'"
    by (simp add: cs sp sp')
  ultimately show ?case by blast
qed

lemma state_of_eq: "state_symbol \<noteq> '''' \<Longrightarrow> (state_of state_symbol s = state_symbol) = (s = IN_SILENCE)"
  by (cases s) (auto simp: state_of_def)

lemma get_silence_timestamps_spec:
  assumes sym: "state_symbol \<noteq> ''''" and ne: "probs \<noteq> []" and am: "map argmax probs = map Inr cs"
  shows "get_silence_timestamps probs sil state_symbol = Inr (spec_scan sil cs 0 NOT_IN_SILENCE 0 [])"
proof -
  from ne am obtain row0 rows c0 cs' where probs: "probs = row0 # rows" and cs: "cs = c0 # cs'"
    and c0: "argmax row0 = Inr c0" and rest: "map argmax rows = map Inr cs'"
    by (cases probs; cases cs) auto
  define s0 where "s0 = (if c0 = sil then IN_SILENCE else NOT_IN_SILENCE)"
  have init: "(if c0 = sil then state_symbol else '''') = state_of state_symbol s0"
    by (simp add: s0_def state_of_def)
  have start: "spec_scan sil cs 0 NOT_IN_SILENCE 0 [] = spec_scan sil cs' 1 s0 0 []"
    by (simp add: cs s0_def)
  from silence_loop_spec[OF sym rest, of sil 1 s0 0 "[]"]
  obtain s' entry' acc' where
    l: "silence_loop sil state_symbol 1 rows (state_of state_symbol s0, 0, [])
          = Inr (state_of state_symbol s', entry', acc')"
    and sp: "spec_scan sil cs' 1 s0 0 [] = spec_scan sil [] (1 + length rows) s' entry' acc'"
    by blast
  have fin: "spec_scan sil [] (1 + length rows) s' entry' acc'
               = (if state_of state_symbol s' = state_symbol
                  then acc' @ [(int entry', int (length probs) - 1)] else acc')"
    by (cases s') (simp_all add: state_of_eq[OF sym] probs)
  show ?thesis
    unfolding start sp fin
    by (simp add: get_silence_timestamps_def probs c0 init l del: One_nat_def)
qed

lemma argmax_from_props:
  assumes "besti < i" and "best \<in> set pre" and "\<forall>x \<in> set pre. x \<le> best"
    and "length pre = i" and "pre ! besti = best" and "\<forall>j < besti. pre ! j < best"
  shows "argmax_from best besti i ys < length (pre @ ys)
         \<and> (\<forall>x \<in> set (pre @ ys). x \<le> (pre @ ys) ! argmax_from best besti i ys)
         \<and> (\<forall>j < argmax_from best besti i ys. (pre @ ys) ! j < (pre @ ys) ! argmax_from best besti i ys)"
  using assms
proof (induction ys arbitrary: best besti i pre)
  case Nil
  then show ?case by auto
next
  case (Cons y ys)
  show ?case
  proof (cases "best < y")
    case True
    have "argmax_from y i (Suc i) ys < length ((pre @ [y]) @ ys)
         \<and> (\<forall>x \<in> set ((pre @ [y]) @ ys). x \<le> ((pre @ [y]) @ ys) ! argmax_from y i (Suc i) ys)
         \<and> (\<forall>j < argmax_from y i (Suc i) ys. ((pre @ [y]) @ ys) ! j < ((pre @ [y]) @ ys) ! argmax_from y i (Suc i) ys)"
    proof (rule Cons.IH)
      show "i < Suc i" by simp
      show "y \<in> set (pre @ [y])" by simp
      show "\<forall>x\<in>set (pre @ [y]). x \<le> y" using Cons.prems(3) True by auto
      show "length (pre @ [y]) = Suc i" using Cons.prems(4) by simp
      show "(pre @ [y]) ! i = y" using Cons.prems(4) by (simp add: nth_append)
      show "\<forall>j<i. (pre @ [y]) ! j < y"
        using Cons.prems(3,4) True by (auto simp: nth_append intro: le_less_trans)
    qed
    then show ?thesis using True by simp
  next
    case False
    have "argmax_from best besti (Suc i) ys < length ((pre @ [y]) @ ys)
         \<and> (\<forall>x \<in> set ((pre @ [y]) @ ys). x \<le> ((pre @ [y]) @ ys) ! argmax_from best besti (Suc i) ys)
         \<and> (\<forall>j < argmax_from best besti (Suc i) ys. ((pre @ [y]) @ ys) ! j < ((pre @ [y]) @ ys) ! argmax_from best besti (Suc i) ys)"
    proof (rule Cons.IH)
      show "besti < Suc i" using Cons.prems(1) by simp
      show "best \<in> set (pre @ [y])" using Cons.prems(2) by simp
      show "\<forall>x\<in>set (pre @ [y]). x \<le> best" using Cons.prems(3) False by auto
      show "length (pre @ [y]) = Suc i" using Cons.prems(4) by simp
      show "(pre @ [y]) ! besti = best" using Cons.prems(1,4,5) by (simp add: nth_append)
      show "\<forall>j<besti. (pre @ [y]) ! j < best"
        using Cons.prems(1,4,6) by (auto simp: nth_append)
    qed
    then show ?thesis using False by simp
  qed
qed

lemma argmax_first_max:
  assumes "argmax row = Inr c"
  shows "c < length row \<and> (\<forall>x \<in> set row. x \<le> row ! c) \<and> (\<forall>j < c. row ! j < row ! c)"
proof -
  from assms obtain x xs where row: "row = x # xs" and c: "c = argmax_from x 0 1 xs"
    by (cases row) (auto simp: argmax_def)
  from argmax_from_props[of 0 1 x "[x]" xs]
  show ?thesis by (simp add: row c)
qed

text \<open>
  Claim C4. The scan of the silence segmenter is the two-state scan of the
  specification over the arg-max classes of the frames (each the first position of a
  greatest entry of its frame): it enters \<open>IN_SILENCE\<close> at a frame whose arg-max is the
  silence index and records that frame; in \<open>IN_SILENCE\<close> it closes the interval at the
  previous frame exactly when the arg-max is neither 0 nor the silence index; and an
  interval still open at the end is closed at the last frame.
\<close>

theorem silence_scan_two_state:
  assumes "state_symbol \<noteq> ''''" and "probs \<noteq> []" and "map argmax probs = map Inr cs"
  shows "get_silence_timestamps probs sil state_symbol
           = Inr (spec_scan sil cs 0 NOT_IN_SILENCE 0 [])
         \<and> (\<forall>i < length probs.
               cs ! i < length (probs ! i)
             \<and> (\<forall>x \<in> set (probs ! i). x \<le> probs ! i ! (cs ! i))
             \<and> (\<forall>j < cs ! i. probs ! i ! j < probs ! i ! (cs ! i)))"
proof (rule conjI)
  show "get_silence_timestamps probs sil state_symbol = Inr (spec_scan sil cs 0 NOT_IN_SILENCE 0 [])"
    by (rule get_silence_timestamps_spec[OF assms])
next
  show "\<forall>i < length probs.
               cs ! i < length (probs ! i)
             \<and> (\<forall>x \<in> set (probs ! i). x \<le> probs ! i ! (cs ! i))
             \<and> (\<forall>j < cs ! i. probs ! i ! j < probs ! i ! (cs ! i))"
  proof (rule allI, rule impI)
    fix i assume i: "i < length probs"
    from assms(3) have "length probs = length cs"
      by (rule map_eq_imp_length_eq)
    with i assms(3) have "argmax (probs ! i) = Inr (cs ! i)"
      by (metis nth_map)
    then show "cs ! i < length (probs ! i)
        \<and> (\<forall>x \<in> set (probs ! i). x \<le> probs ! i ! (cs ! i))
        \<and> (\<forall>j < cs ! i. probs ! i ! j < probs ! i ! (cs ! i))"
      by (rule argmax_first_max)
  qed
qed

theorem silence_scan_two_state_witness:
  "map argmax [[0, 0, 1, 0], [1, 0, 0, 0], [0, 0, 1, 0], [0, 1, 0, 0], [0, 0, 1, 0 :: nat]]
     = map Inr [2, 0, 2, 1, 2]
   \<and> get_silence_timestamps
       [[0, 0, 1, 0], [1, 0, 0, 0], [0, 0, 1, 0], [0, 1, 0, 0], [0, 0, 1, 0 :: nat]] 2 ''blank''
     = Inr [(0, 2), (4, 4)]"
proof -
  have sym: "''blank'' \<noteq> ''''" by simp
  have ne: "[[0, 0, 1, 0], [1, 0, 0, 0], [0, 0, 1, 0], [0, 1, 0, 0], [0, 0, 1, 0 :: nat]] \<noteq> []"
    by simp
  have am: "map argmax [[0, 0, 1, 0], [1, 0, 0, 0], [0, 0, 1, 0], [0, 1, 0, 0], [0, 0, 1, 0 :: nat]]
              = map Inr [2, 0, 2, 1, 2]"
    by (simp add: argmax_def)
  have sc: "spec_scan 2 [2, 0, 2, 1, 2] 0 NOT_IN_SILENCE 0 [] = [(0, 2), (4, 4)]"
    by (simp add: numeral_2_eq_2)
  from silence_scan_two_state[OF sym ne am, of 2]
  have "get_silence_timestamps
          [[0, 0, 1, 0], [1, 0, 0, 0], [0, 0, 1, 0], [0, 1, 0, 0], [0, 0, 1, 0 :: nat]] 2 ''blank''
        = Inr (spec_scan 2 [2, 0, 2, 1, 2] 0 NOT_IN_SILENCE 0 [])"
    by (rule conjunct1)
  with am sc show ?thesis by simp
qed

section \<open>The word timer\<close>

lemma split_chr_nosep: "c \<notin> set u \<Longrightarrow> split_chr c u = [u]"
  by (induction u) auto

lemma split_chr_sep: "c \<notin> set u \<Longrightarrow> split_chr c (u @ c # v) = u # split_chr c v"
  by (induction u) auto

lemma split_chr_ne: "split_chr c u \<noteq> []"
  by (induction u) (auto split: list.splits)

lemma length_split_chr: "length (split_chr c u) = Suc (length (filter (\<lambda>x. x = c) u))"
  by (induction u) (auto split: list.splits simp: split_chr_ne)

lemma length_filter_nth:
  "length (filter (\<lambda>j. xs ! j = c) [0 ..< length xs]) = length (filter (\<lambda>x. x = c) xs)"
proof -
  have "filter (\<lambda>x. x = c) (map (\<lambda>j. xs ! j) [0 ..< length xs])
          = map (\<lambda>j. xs ! j) (filter (\<lambda>j. xs ! j = c) [0 ..< length xs])"
    by (simp add: filter_map comp_def)
  then have "length (filter (\<lambda>x. x = c) (map (\<lambda>j. xs ! j) [0 ..< length xs]))
          = length (filter (\<lambda>j. xs ! j = c) [0 ..< length xs])"
    by simp
  then show ?thesis by (simp add: map_nth)
qed

lemma get_spaces_loop_error:
  "get_spaces_loop transc timestamps k rest st = Inl e \<Longrightarrow> e = IndexError"
proof (induction rest arbitrary: k st)
  case Nil
  then show ?case by simp
next
  case (Cons s rest)
  obtain stt sp wl where st: "st = (stt, sp, wl)" by (cases st)
  from Cons.prems show ?case
    unfolding st by (auto split: if_splits dest: Cons.IH)
qed

lemma get_spaces_loop_nospace:
  "CHR '' '' \<notin> set rest \<Longrightarrow> get_spaces_loop transc timestamps k rest st = Inr st"
proof (induction rest arbitrary: k)
  case Nil
  then show ?case by simp
next
  case (Cons s rest)
  obtain stt sp wl where st: "st = (stt, sp, wl)" by (cases st)
  from Cons show ?case unfolding st by auto
qed

lemma get_spaces_loop_inv:
  assumes "drop k transc = rest" and "length timestamps = length transc"
    and "last transc \<noteq> CHR '' ''"
    and "stt \<le> k" and "\<forall>j. stt \<le> j \<and> j < k \<longrightarrow> transc ! j \<noteq> CHR '' ''"
    and "stt < length transc"
  shows "\<exists>stt' wl'.
           get_spaces_loop transc timestamps k rest (stt, sp, wl)
             = Inr (stt',
                    sp @ map (\<lambda>j. (timestamps ! j, timestamps ! Suc j - 1))
                           (filter (\<lambda>j. transc ! j = CHR '' '') [k ..< length transc]),
                    wl')
           \<and> stt' < length transc
           \<and> (\<forall>j. stt' \<le> j \<and> j < length transc \<longrightarrow> transc ! j \<noteq> CHR '' '')
           \<and> wl' @ [drop stt' transc] = wl @ split_chr CHR '' '' (drop stt transc)"
  using assms
proof (induction rest arbitrary: k stt sp wl)
  case Nil
  then have k: "length transc \<le> k" by simp
  have ns: "CHR '' '' \<notin> set (drop stt transc)"
  proof
    assume "CHR '' '' \<in> set (drop stt transc)"
    then obtain m where m: "m < length (drop stt transc)" "drop stt transc ! m = CHR '' ''"
      by (auto simp: in_set_conv_nth)
    then have "transc ! (stt + m) = CHR '' ''" and "stt + m < length transc"
      by auto
    with Nil.prems(5) k show False
      by (metis le_add1 less_le_trans)
  qed
  from k have "[k ..< length transc] = []" by simp
  with Nil.prems ns k show ?case
    by (auto simp: split_chr_nosep)
next
  case (Cons s rest)
  from Cons.prems(1) have klt: "k < length transc"
    by (metis drop_all list.distinct(1) not_le)
  from Cons.prems(1) klt have s: "transc ! k = s"
    by (metis Cons_nth_drop_Suc list.inject)
  from Cons.prems(1) klt have rest: "drop (Suc k) transc = rest"
    by (metis Cons_nth_drop_Suc list.inject)
  have upt: "[k ..< length transc] = k # [Suc k ..< length transc]"
    using klt by (simp add: upt_conv_Cons)
  show ?case
  proof (cases "s = CHR '' ''")
    case True
    have transc_ne: "transc \<noteq> []" using klt by auto
    have "k \<noteq> length transc - 1"
      using Cons.prems(3) s True transc_ne by (auto simp: last_conv_nth)
    with klt have sk: "Suc k < length transc" by simp
    have split: "split_chr CHR '' '' (drop stt transc)
                   = take (k - stt) (drop stt transc) # split_chr CHR '' '' (drop (Suc k) transc)"
    proof -
      have dec: "drop stt transc = take (k - stt) (drop stt transc) @ CHR '' '' # drop (Suc k) transc"
      proof -
        have "drop stt transc = take (k - stt) (drop stt transc) @ drop (k - stt) (drop stt transc)"
          by (rule append_take_drop_id[symmetric])
        also have "drop (k - stt) (drop stt transc) = drop k transc"
          using Cons.prems(4) by simp
        also have "drop k transc = CHR '' '' # drop (Suc k) transc"
          using Cons_nth_drop_Suc[OF klt] s True by simp
        finally show ?thesis .
      qed
      have nosp: "CHR '' '' \<notin> set (take (k - stt) (drop stt transc))"
      proof
        assume "CHR '' '' \<in> set (take (k - stt) (drop stt transc))"
        then obtain m where m: "m < length (take (k - stt) (drop stt transc))"
          "take (k - stt) (drop stt transc) ! m = CHR '' ''"
          by (auto simp: in_set_conv_nth)
        then have "m < k - stt" and "transc ! (stt + m) = CHR '' ''"
          using klt by auto
        with Cons.prems(5) show False
          by (metis le_add1 less_diff_conv add.commute)
      qed
      show ?thesis
        by (subst dec) (rule split_chr_sep[OF nosp])
    qed
    have vac: "\<forall>j. Suc k \<le> j \<and> j < Suc k \<longrightarrow> transc ! j \<noteq> CHR '' ''"
      by (metis leD)
    from Cons.IH[OF rest Cons.prems(2,3) le_refl vac sk, of
        "sp @ [(timestamps ! k, timestamps ! Suc k - 1)]"
        "wl @ [take (k - stt) (drop stt transc)]"]
    obtain stt' wl' where
      l: "get_spaces_loop transc timestamps (Suc k) rest
            (Suc k, sp @ [(timestamps ! k, timestamps ! Suc k - 1)],
             wl @ [take (k - stt) (drop stt transc)])
          = Inr (stt',
                 (sp @ [(timestamps ! k, timestamps ! Suc k - 1)])
                   @ map (\<lambda>j. (timestamps ! j, timestamps ! Suc j - 1))
                       (filter (\<lambda>j. transc ! j = CHR '' '') [Suc k ..< length transc]),
                 wl')"
      and i1: "stt' < length transc"
      and i2: "\<forall>j. stt' \<le> j \<and> j < length transc \<longrightarrow> transc ! j \<noteq> CHR '' ''"
      and i3: "wl' @ [drop stt' transc]
                 = (wl @ [take (k - stt) (drop stt transc)]) @ split_chr CHR '' '' (drop (Suc k) transc)"
      by blast
    have "get_spaces_loop transc timestamps k (s # rest) (stt, sp, wl)
            = Inr (stt',
                   sp @ map (\<lambda>j. (timestamps ! j, timestamps ! Suc j - 1))
                          (filter (\<lambda>j. transc ! j = CHR '' '') [k ..< length transc]),
                   wl')"
      using True sk Cons.prems(2) s by (simp add: l upt)
    moreover have "wl' @ [drop stt' transc] = wl @ split_chr CHR '' '' (drop stt transc)"
      by (simp add: i3 split)
    ultimately show ?thesis using i1 i2 by blast
  next
    case False
    have c5: "\<forall>j. stt \<le> j \<and> j < Suc k \<longrightarrow> transc ! j \<noteq> CHR '' ''"
      using Cons.prems(5) s False by (auto simp: less_Suc_eq)
    have le: "stt \<le> Suc k" using Cons.prems(4) by simp
    from Cons.IH[OF rest Cons.prems(2,3) le c5 Cons.prems(6), of sp wl]
    obtain stt' wl' where
      l: "get_spaces_loop transc timestamps (Suc k) rest (stt, sp, wl)
          = Inr (stt',
                 sp @ map (\<lambda>j. (timestamps ! j, timestamps ! Suc j - 1))
                       (filter (\<lambda>j. transc ! j = CHR '' '') [Suc k ..< length transc]),
                 wl')"
      and i1: "stt' < length transc"
      and i2: "\<forall>j. stt' \<le> j \<and> j < length transc \<longrightarrow> transc ! j \<noteq> CHR '' ''"
      and i3: "wl' @ [drop stt' transc] = wl @ split_chr CHR '' '' (drop stt transc)"
      by blast
    have "get_spaces_loop transc timestamps k (s # rest) (stt, sp, wl)
            = Inr (stt',
                   sp @ map (\<lambda>j. (timestamps ! j, timestamps ! Suc j - 1))
                          (filter (\<lambda>j. transc ! j = CHR '' '') [k ..< length transc]),
                   wl')"
      using False s by (simp add: l upt)
    then show ?thesis using i1 i2 i3 by blast
  qed
qed

lemma get_spaces_closed_form:
  assumes ne: "transc \<noteq> []" and len: "length timestamps = length transc"
    and nt: "last transc \<noteq> CHR '' ''"
  shows "get_spaces transc timestamps
           = Inr (map (\<lambda>j. (timestamps ! j, timestamps ! Suc j - 1))
                    (filter (\<lambda>j. transc ! j = CHR '' '') [0 ..< length transc]),
                  split_chr CHR '' '' transc)"
proof -
  from ne have pos: "0 < length transc" by simp
  from get_spaces_loop_inv[of 0 transc transc timestamps 0 "[]" "[]", OF _ len nt _ _ pos]
  obtain stt' wl' where
    l: "get_spaces_loop transc timestamps 0 transc (0, [], [])
          = Inr (stt',
                 map (\<lambda>j. (timestamps ! j, timestamps ! Suc j - 1))
                   (filter (\<lambda>j. transc ! j = CHR '' '') [0 ..< length transc]),
                 wl')"
    and i1: "stt' < length transc"
    and i2: "\<forall>j. stt' \<le> j \<and> j < length transc \<longrightarrow> transc ! j \<noteq> CHR '' ''"
    and i3: "wl' @ [drop stt' transc] = split_chr CHR '' '' transc"
    by auto
  from i1 i2 have "transc ! stt' \<noteq> CHR '' ''" by simp
  with i1 i3 ne len show ?thesis
    by (simp add: get_spaces_def l)
qed

lemma get_silence_nonempty:
  "get_silence_timestamps probs sil state_symbol = Inr blanks \<Longrightarrow> concat probs \<noteq> []"
  by (cases probs) (auto simp: get_silence_timestamps_def argmax_def split: list.splits)

lemma word_timetamps_closed_form:
  assumes "timestamps \<noteq> []" and "spaces \<noteq> []"
  shows "\<exists>wts. word_timetamps timestamps spaces nframes = Inr wts
           \<and> length wts = Suc (length spaces)
           \<and> wts ! 0 = (timestamps ! 0, fst (spaces ! 0))
           \<and> (\<forall>i. 0 < i \<and> i < length spaces \<longrightarrow> wts ! i = (snd (spaces ! (i - 1)), fst (spaces ! i)))
           \<and> wts ! length spaces = (snd (last spaces), int nframes)"
proof -
  define mid where "mid = map (\<lambda>k. (snd (spaces ! k), fst (spaces ! Suc k))) [0 ..< length spaces - 1]"
  define wts where "wts = [(timestamps ! 0, fst (spaces ! 0))] @ mid @ [(snd (last spaces), int nframes)]"
  have lm: "length mid = length spaces - 1" by (simp add: mid_def)
  have r: "word_timetamps timestamps spaces nframes = Inr wts"
    using assms by (simp add: word_timetamps_def wts_def mid_def)
  have l: "length wts = Suc (length spaces)"
    using assms(2) by (simp add: wts_def lm)
  have z: "wts ! 0 = (timestamps ! 0, fst (spaces ! 0))"
    by (simp add: wts_def)
  have m: "\<forall>i. 0 < i \<and> i < length spaces \<longrightarrow> wts ! i = (snd (spaces ! (i - 1)), fst (spaces ! i))"
  proof (intro allI impI)
    fix i assume i: "0 < i \<and> i < length spaces"
    then obtain i' where i': "i = Suc i'" by (cases i) auto
    with i have "i' < length mid" by (simp add: lm)
    then have "wts ! i = mid ! i'"
      by (simp add: wts_def i' nth_append)
    also have "\<dots> = (snd (spaces ! i'), fst (spaces ! Suc i'))"
      using \<open>i' < length mid\<close> by (simp add: mid_def)
    finally show "wts ! i = (snd (spaces ! (i - 1)), fst (spaces ! i))"
      by (simp add: i')
  qed
  have e: "wts ! length spaces = (snd (last spaces), int nframes)"
  proof -
    have "length spaces = length ([(timestamps ! 0, fst (spaces ! 0))] @ mid)"
      using assms(2) by (simp add: lm)
    then show ?thesis
      unfolding wts_def by (metis append.assoc nth_append_length)
  qed
  from r l z m e show ?thesis by blast
qed

lemma vad_returns:
  assumes "non_speech \<noteq> []" and "time_stride P \<noteq> 0"
  shows "\<exists>sl. get_speech_label_and_write_VAD_rttm nframes non_speech P = Inr sl"
  using assms by (simp add: get_speech_label_and_write_VAD_rttm_def Let_def)

lemma word_timer_returns:
  assumes len: "length timestamps = length transc"
    and sp: "CHR '' '' \<in> set transc"
    and nt: "last transc \<noteq> CHR '' ''"
    and sil: "get_silence_timestamps probs 28 ''blank'' = Inr blanks"
    and ns: "filter (\<lambda>x. threshold P < of_int (snd x - fst x)) blanks \<noteq> []"
    and st: "time_stride P \<noteq> 0"
  shows "\<exists>spaces wts.
           get_speech_labels_utt P (transc, probs, timestamps)
             = Inr (split_chr CHR '' '' transc, spaces, wts)
           \<and> spaces = map (\<lambda>k. (timestamps ! k, timestamps ! Suc k - 1))
                        (filter (\<lambda>k. transc ! k = CHR '' '') [0 ..< length transc])
           \<and> length wts = Suc (length spaces)
           \<and> length (split_chr CHR '' '' transc) = length wts
           \<and> wts ! 0 = (timestamps ! 0, fst (spaces ! 0))
           \<and> (\<forall>i. 0 < i \<and> i < length spaces \<longrightarrow> wts ! i = (snd (spaces ! (i - 1)), fst (spaces ! i)))
           \<and> wts ! length spaces = (snd (last spaces), int (length probs))"
proof -
  define spaces where "spaces = map (\<lambda>k. (timestamps ! k, timestamps ! Suc k - 1))
                        (filter (\<lambda>k. transc ! k = CHR '' '') [0 ..< length transc])"
  from sp have ne: "transc \<noteq> []" by auto
  with len have tne: "timestamps \<noteq> []" by auto
  have gs: "get_spaces transc timestamps = Inr (spaces, split_chr CHR '' '' transc)"
    unfolding spaces_def by (rule get_spaces_closed_form[OF ne len nt])
  have nsp: "length spaces = length (filter (\<lambda>x. x = CHR '' '') transc)"
    by (simp add: spaces_def length_filter_nth)
  from sp have "filter (\<lambda>x. x = CHR '' '') transc \<noteq> []"
    by (simp add: filter_empty_conv)
  with nsp have sne: "spaces \<noteq> []" by auto
  from word_timetamps_closed_form[OF tne sne, of "length probs"]
  obtain wts where w: "word_timetamps timestamps spaces (length probs) = Inr wts"
    and wl: "length wts = Suc (length spaces)"
    and w0: "wts ! 0 = (timestamps ! 0, fst (spaces ! 0))"
    and wm: "\<forall>i. 0 < i \<and> i < length spaces \<longrightarrow> wts ! i = (snd (spaces ! (i - 1)), fst (spaces ! i))"
    and we: "wts ! length spaces = (snd (last spaces), int (length probs))"
    by blast
  have cnt: "length (split_chr CHR '' '' transc) = length wts"
    by (simp add: length_split_chr wl nsp)
  from vad_returns[OF ns st, of "length probs"] obtain sl where vad:
    "get_speech_label_and_write_VAD_rttm (length probs)
       (filter (\<lambda>x. threshold P < of_int (snd x - fst x)) blanks) P = Inr sl"
    by blast
  have "get_speech_labels_utt P (transc, probs, timestamps)
          = Inr (split_chr CHR '' '' transc, spaces, wts)"
    using get_silence_nonempty[OF sil]
    by (simp add: get_speech_labels_utt_def gs sil vad w cnt del: of_int_diff)
  with wl cnt w0 wm we show ?thesis
    unfolding spaces_def[symmetric] by blast
qed

lemma get_spaces_nospace:
  assumes "CHR '' '' \<notin> set transc" and "get_spaces transc timestamps = Inr (spaces, ws)"
  shows "spaces = []"
  using assms by (auto simp: get_spaces_def get_spaces_loop_nospace split: if_splits)

lemma single_word_fails:
  assumes "CHR '' '' \<notin> set transc"
  shows "isl (get_speech_labels_utt P (transc, probs, timestamps))"
proof (cases "get_spaces transc timestamps")
  case (Inl e)
  then show ?thesis by (simp add: get_speech_labels_utt_def)
next
  case (Inr r)
  obtain spaces ws where r: "r = (spaces, ws)" by (cases r)
  from get_spaces_nospace[OF assms] Inr r have "spaces = []" by simp
  then have "word_timetamps timestamps spaces (length probs) = Inl IndexError"
    by (simp add: word_timetamps_def)
  then show ?thesis
    by (simp add: get_speech_labels_utt_def Inr r Let_def split: sum.splits)
qed

lemma get_spaces_assert:
  "(get_spaces transc timestamps = Inl AssertionError)
     = (transc = [] \<or> timestamps = [] \<or> length transc \<noteq> length timestamps)"
  by (auto simp: get_spaces_def split: sum.splits dest: get_spaces_loop_error)

lemma utt_assert:
  assumes "concat probs \<noteq> []" and "transc = [] \<or> timestamps = [] \<or> length transc \<noteq> length timestamps"
  shows "get_speech_labels_utt P (transc, probs, timestamps) = Inl AssertionError"
  using assms get_spaces_assert[of transc timestamps]
  by (simp add: get_speech_labels_utt_def)

lemma predictions_all_blank:
  "ctc_decoder_predictions vocabulary (replicate n (int (length vocabulary))) = Inr ('''', [])"
  by (simp add: ctc_decoder_predictions_def ctc_decode_def ctc_loop_blanks
        decode_tokens_to_str_with_ts_def)

text \<open>
  Claim C10. The word timer asserts that the decoded text and the list of timestamps are
  both non-empty and of the same length: \<^verbatim>\<open>_get_spaces\<close> raises the assertion error
  exactly on such inputs, and so does the turn of \<^verbatim>\<open>get_speech_labels_list\<close> for an
  utterance with at least one frame. In particular the empty hypothesis that the frame
  decoder returns for a sequence of blanks makes the word timer fail with the assertion
  error; it does not return an empty list of words.
\<close>

theorem word_timer_asserts_inputs:
  "(get_spaces transc timestamps = Inl AssertionError)
     = (transc = [] \<or> timestamps = [] \<or> length transc \<noteq> length timestamps)
   \<and> (concat probs \<noteq> [] \<and> (transc = [] \<or> timestamps = [] \<or> length transc \<noteq> length timestamps)
        \<longrightarrow> get_speech_labels_utt P (transc, probs, timestamps) = Inl AssertionError)
   \<and> (concat probs \<noteq> []
        \<longrightarrow> (case ctc_decoder_predictions vocabulary (replicate n (int (length vocabulary))) of
               Inl e \<Rightarrow> False
             | Inr (text, ts) \<Rightarrow>
                 get_speech_labels_utt P (text, probs, map int ts) = Inl AssertionError))"
proof (intro conjI impI)
  show "(get_spaces transc timestamps = Inl AssertionError)
     = (transc = [] \<or> timestamps = [] \<or> length transc \<noteq> length timestamps)"
    by (rule get_spaces_assert)
next
  assume "concat probs \<noteq> [] \<and> (transc = [] \<or> timestamps = [] \<or> length transc \<noteq> length timestamps)"
  then show "get_speech_labels_utt P (transc, probs, timestamps) = Inl AssertionError"
    using utt_assert by blast
next
  assume ne: "concat probs \<noteq> []"
  have "get_speech_labels_utt P ('''', probs, map int []) = Inl AssertionError"
    by (rule utt_assert[OF ne]) simp
  then show "case ctc_decoder_predictions vocabulary (replicate n (int (length vocabulary))) of
               Inl e \<Rightarrow> False
             | Inr (text, ts) \<Rightarrow>
                 get_speech_labels_utt P (text, probs, map int ts) = Inl AssertionError"
    by (simp add: predictions_all_blank)
qed

theorem word_timer_asserts_inputs_witness:
  "get_spaces '''' [] = Inl AssertionError
   \<and> get_spaces ''hi'' [3] = Inl AssertionError
   \<and> get_speech_labels_utt unit_params ('''', [[1]], []) = Inl AssertionError"
proof -
  note rule = word_timer_asserts_inputs[of "''''" "[]" "[[1]]" unit_params "[''a'', ''b'']" 3]
  from rule have a: "get_spaces '''' [] = Inl AssertionError" by simp
  from rule have c: "get_speech_labels_utt unit_params ('''', [[1]], []) = Inl AssertionError"
    by simp
  from word_timer_asserts_inputs[of "''hi''" "[3]" "[[1]]" unit_params "[''a'', ''b'']" 3]
  have b: "get_spaces ''hi'' [3] = Inl AssertionError" by simp
  from a b c show ?thesis by blast
qed

text \<open>
  Claim C5. The number of words the word timer returns equals the number of tokens of the
  text separated by spaces, for a text with no space at its ends and any number of spaces
  inside. The code breaks the claim for a text without a space: \<^verbatim>\<open>_get_spaces\<close> returns
  its one word and no boundary, and line 483 then reads \<^verbatim>\<open>_spaces[0]\<close>, so the turn of
  \<^verbatim>\<open>get_speech_labels_list\<close> never returns for such a text.
\<close>

theorem word_timer_single_word_raises:
  assumes "CHR '' '' \<notin> set transc"
  shows "isl (get_speech_labels_utt P (transc, probs, timestamps))"
  using assms by (rule single_word_fails)

theorem word_timer_single_word_raises_witness:
  "CHR '' '' \<notin> set ''hi''
   \<and> get_spaces ''hi'' [3, 5] = Inr ([], [''hi''])
   \<and> isl (get_speech_labels_utt unit_params (''hi'', class_frames [28, 28, 28, 1], [3, 5]))
   \<and> get_speech_labels_utt unit_params (''hi'', class_frames [28, 28, 28, 1], [3, 5])
       = Inl IndexError"
proof -
  have h: "CHR '' '' \<notin> set ''hi''" by simp
  have g: "get_spaces ''hi'' [3, 5] = Inr ([], [''hi''])"
    by code_simp
  have v: "get_speech_labels_utt unit_params (''hi'', class_frames [28, 28, 28, 1], [3, 5])
             = Inl IndexError"
    by code_simp
  from word_timer_single_word_raises[OF h, of unit_params "class_frames [28, 28, 28, 1]" "[3, 5]"]
    h g v
  show ?thesis by blast
qed

text \<open>
  Claim C8, as amended. For a decoded text with at least one space and none at its end,
  with one timestamp per character, over frames in which the segmenter finds a silence
  wider than the threshold, the word timer returns, and: a space at position \<open>k\<close> gives
  the boundary
  \<open>[timestamp[k], timestamp[k+1] - 1]\<close>; word 0 runs from the first timestamp to the start
  of the first boundary, a word \<open>i\<close> in between from the end of boundary \<open>i - 1\<close> to the
  start of boundary \<open>i\<close>, and the last word from the end of the last boundary to the
  number of frames (one more than the index of the last frame). The words are the text
  split at its spaces, as many as the windows.
\<close>

theorem word_windows_from_boundaries:
  assumes "length timestamps = length transc"
    and "CHR '' '' \<in> set transc"
    and "last transc \<noteq> CHR '' ''"
    and "get_silence_timestamps probs 28 ''blank'' = Inr blanks"
    and "filter (\<lambda>x. threshold P < of_int (snd x - fst x)) blanks \<noteq> []"
    and "time_stride P \<noteq> 0"
  shows "\<exists>spaces wts.
           get_speech_labels_utt P (transc, probs, timestamps)
             = Inr (split_chr CHR '' '' transc, spaces, wts)
           \<and> spaces = map (\<lambda>k. (timestamps ! k, timestamps ! Suc k - 1))
                        (filter (\<lambda>k. transc ! k = CHR '' '') [0 ..< length transc])
           \<and> length wts = Suc (length spaces)
           \<and> length (split_chr CHR '' '' transc) = length wts
           \<and> wts ! 0 = (timestamps ! 0, fst (spaces ! 0))
           \<and> (\<forall>i. 0 < i \<and> i < length spaces \<longrightarrow> wts ! i = (snd (spaces ! (i - 1)), fst (spaces ! i)))
           \<and> wts ! length spaces = (snd (last spaces), int (length probs))"
  using assms by (rule word_timer_returns)

theorem word_windows_from_boundaries_witness:
  "get_silence_timestamps (class_frames [28, 28, 28, 1, 1, 1, 1, 1, 1, 1, 1, 1, 1, 1]) 28 ''blank''
     = Inr [(0, 2)]
   \<and> split_chr CHR '' '' ''hi there you'' = [''hi'', ''there'', ''you'']
   \<and> get_speech_labels_utt unit_params
        (''hi there you'', class_frames [28, 28, 28, 1, 1, 1, 1, 1, 1, 1, 1, 1, 1, 1],
         [1, 2, 3, 4, 5, 6, 7, 8, 9, 10, 11, 12])
       = Inr ([''hi'', ''there'', ''you''], [(3, 3), (9, 9)], [(1, 3), (3, 9), (9, 14)])"
proof -
  have len: "length [1, 2, 3, 4, 5, 6, 7, 8, 9, 10, 11, 12 :: int] = length ''hi there you''"
    by simp
  have sp: "CHR '' '' \<in> set ''hi there you''" by simp
  have nt: "last ''hi there you'' \<noteq> CHR '' ''" by simp
  have sil: "get_silence_timestamps (class_frames [28, 28, 28, 1, 1, 1, 1, 1, 1, 1, 1, 1, 1, 1])
               28 ''blank'' = Inr [(0, 2)]"
    by code_simp
  have ns: "filter (\<lambda>x. threshold unit_params < of_int (snd x - fst x)) [(0, 2)] \<noteq> []"
    by (simp add: unit_params_def)
  have st: "time_stride unit_params \<noteq> 0"
    by (simp add: unit_params_def)
  from word_windows_from_boundaries[OF len sp nt sil ns st]
  obtain spaces wts where r:
    "get_speech_labels_utt unit_params
        (''hi there you'', class_frames [28, 28, 28, 1, 1, 1, 1, 1, 1, 1, 1, 1, 1, 1],
         [1, 2, 3, 4, 5, 6, 7, 8, 9, 10, 11, 12])
       = Inr (split_chr CHR '' '' ''hi there you'', spaces, wts)"
    by blast
  have v: "get_speech_labels_utt unit_params
        (''hi there you'', class_frames [28, 28, 28, 1, 1, 1, 1, 1, 1, 1, 1, 1, 1, 1],
         [1, 2, 3, 4, 5, 6, 7, 8, 9, 10, 11, 12])
       = Inr ([''hi'', ''there'', ''you''], [(3, 3), (9, 9)], [(1, 3), (3, 9), (9, 14)])"
    by code_simp
  from r v have "split_chr CHR '' '' ''hi there you'' = [''hi'', ''there'', ''you'']"
    by simp
  with sil v show ?thesis by blast
qed

text \<open>
  The claim as the specification states it ends the last word at the index of the last
  frame. For the text \<open>a b\<close> over five frames the last window ends at 5, the number of
  frames; the index of the last frame is 4.
\<close>

theorem last_window_ends_at_frame_count:
  "get_speech_labels_utt unit_params (''a b'', class_frames [28, 28, 28, 1, 1], [0, 1, 2])
     = Inr ([''a'', ''b''], [(1, 1)], [(0, 1), (1, 5)])
   \<and> int (length (class_frames [28, 28, 28, 1, 1])) - 1 = 4"
proof (rule conjI)
  show "get_speech_labels_utt unit_params (''a b'', class_frames [28, 28, 28, 1, 1], [0, 1, 2])
     = Inr ([''a'', ''b''], [(1, 1)], [(0, 1), (1, 5)])"
    by code_simp
  show "int (length (class_frames [28, 28, 28, 1, 1])) - 1 = 4"
    by (simp add: class_frames_def)
qed

text \<open>
  Claim C6. The silence intervals and the speech intervals between them cover the frames
  \<open>[0, numFrames)\<close> without a gap and without an overlap. The code breaks the claim:
  \<^verbatim>\<open>get_speech_label_and_write_VAD_rttm\<close> writes the speech between two silences and the
  speech after the last one, never the speech before the first one. For seven frames whose
  silence is frames 2 to 4, the only speech interval is \<open>[4, 7)\<close>: frames 0 and 1 are in
  neither set, and frame 4 is in both.
\<close>

theorem vad_misses_leading_speech:
  "get_silence_timestamps (class_frames [1, 1, 28, 28, 28, 1, 1]) 28 ''blank'' = Inr [(2, 4)]
   \<and> filter (\<lambda>x. threshold unit_params < of_int (snd x - fst x)) [(2, 4)] = [(2, 4)]
   \<and> get_speech_label_and_write_VAD_rttm (length (class_frames [1, 1, 28, 28, 28, 1, 1])) [(2, 4)]
        unit_params
       = Inr [(4, 7)]"
proof (intro conjI)
  show "get_silence_timestamps (class_frames [1, 1, 28, 28, 28, 1, 1]) 28 ''blank'' = Inr [(2, 4)]"
    by code_simp
  show "filter (\<lambda>x. threshold unit_params < of_int (snd x - fst x)) [(2, 4)] = [(2, 4)]"
    by (simp add: unit_params_def)
  show "get_speech_label_and_write_VAD_rttm (length (class_frames [1, 1, 28, 28, 28, 1, 1])) [(2, 4)]
        unit_params
       = Inr [(4, 7)]"
    by (simp add: get_speech_label_and_write_VAD_rttm_def unit_params_def class_frames_def)
qed

theorem vad_misses_leading_speech_witness:
  "\<exists>silence speech.
     get_silence_timestamps (class_frames [1, 1, 28, 28, 28, 1, 1]) 28 ''blank'' = Inr silence
   \<and> get_speech_label_and_write_VAD_rttm 7
        (filter (\<lambda>x. threshold unit_params < of_int (snd x - fst x)) silence) unit_params
       = Inr speech
   \<and> \<not> list_ex (\<lambda>(s, e). s \<le> 0 \<and> 0 \<le> e) silence
   \<and> \<not> list_ex (\<lambda>(s, e). s \<le> 0 \<and> 0 < e) speech"
proof -
  have l: "length (class_frames [1, 1, 28, 28, 28, 1, 1]) = 7"
    by (simp add: class_frames_def)
  note rule = vad_misses_leading_speech[unfolded l]
  from rule have a: "get_silence_timestamps (class_frames [1, 1, 28, 28, 28, 1, 1]) 28 ''blank''
                       = Inr [(2, 4)]"
    by (rule conjunct1)
  from rule have b: "filter (\<lambda>x. threshold unit_params < of_int (snd x - fst x)) [(2, 4)] = [(2, 4)]"
    by blast
  from rule have c: "get_speech_label_and_write_VAD_rttm 7 [(2, 4)] unit_params = Inr [(4, 7)]"
    by blast
  have d: "\<not> list_ex (\<lambda>(s, e). s \<le> 0 \<and> 0 \<le> e) [(2 :: int, 4 :: int)]"
    by simp
  have e: "\<not> list_ex (\<lambda>(s, e). s \<le> 0 \<and> 0 < e) [(4 :: rat, 7 :: rat)]"
    by simp
  from a b c d e show ?thesis
    by (intro exI[of _ "[(2, 4)]"] exI[of _ "[(4, 7)]"]) (simp only: simp_thms)
qed

section \<open>The speaker attributor\<close>

lemma attr_loop_trace:
  assumes "attr_loop F labels spaces words j rest (pos_prev, idx, cur, out, riva)
             = Inr (pos', idx', cur', out', riva')"
    and "drop j word_ts = rest" and "idx < length labels" and "cur = labels ! idx"
  shows "list_all (\<lambda>i. i < length labels)
           (turn_trace (word_end_pos F spaces word_ts) labels j pos_prev idx (length rest))
       \<and> map speaker_label riva'
           = map speaker_label riva
             @ map (\<lambda>i. speaker (labels ! i))
                 (turn_trace (word_end_pos F spaces word_ts) labels j pos_prev idx (length rest))
       \<and> map word riva' = map word riva @ take (length rest) (drop j words)
       \<and> (rest \<noteq> [] \<longrightarrow> j + length rest \<le> length words)
       \<and> idx' = last (idx # turn_trace (word_end_pos F spaces word_ts) labels j pos_prev idx (length rest))
       \<and> length (filter is_print_time out') = length (filter is_print_time out) + (idx' - idx)
       \<and> idx \<le> idx'"
  using assms
proof (induction rest arbitrary: j pos_prev idx cur out riva)
  case Nil
  then show ?case by simp
next
  case (Cons w rest)
  from Cons.prems(2) have jlt: "j < length word_ts"
    by (metis drop_all list.distinct(1) not_le)
  from Cons.prems(2) jlt have w: "word_ts ! j = w" and rest: "drop (Suc j) word_ts = rest"
    by (metis Cons_nth_drop_Suc list.inject)+
  from Cons.prems(1) have js: "\<not> length spaces < j"
    by (auto split: if_splits)
  define pe where "pe = word_end_pos F spaces word_ts j"
  have pe: "pe = pos_end_of F (if j = length spaces then (snd w, snd w) else spaces ! j)"
    using w by (auto simp: pe_def word_end_pos_def)
  from Cons.prems(1) js have jw: "j < length words"
    by (auto simp: Let_def split: if_splits)
  have dw: "take (Suc (length rest)) (drop j words) = words ! j # take (length rest) (drop (Suc j) words)"
    using jw by (metis Cons_nth_drop_Suc take_Suc_Cons)
  show ?case
  proof (cases "pos_prev < end_point cur")
    case True
    with Cons.prems(1) js jw have l:
      "attr_loop F labels spaces words (Suc j) rest
         (pe, idx, cur, out @ [PrintWord (words ! j)],
          riva @ [add_json_to_dict F (words ! j) w (speaker cur)])
       = Inr (pos', idx', cur', out', riva')"
      by (simp add: Let_def pe)
    have tt: "turn_trace (word_end_pos F spaces word_ts) labels j pos_prev idx (length (w # rest))
                = idx # turn_trace (word_end_pos F spaces word_ts) labels (Suc j) pe idx (length rest)"
      using True Cons.prems(4) by (simp add: pe_def)
    note ih = Cons.IH[OF l rest Cons.prems(3,4)]
    have sl: "speaker_label (add_json_to_dict F (words ! j) w (speaker cur)) = speaker (labels ! idx)"
      and wd: "word (add_json_to_dict F (words ! j) w (speaker cur)) = words ! j"
      using Cons.prems(4) by (simp_all add: add_json_to_dict_def)
    from ih have a1: "list_all (\<lambda>i. i < length labels)
           (turn_trace (word_end_pos F spaces word_ts) labels (Suc j) pe idx (length rest))"
      and a2: "map speaker_label riva'
           = map speaker_label (riva @ [add_json_to_dict F (words ! j) w (speaker cur)])
             @ map (\<lambda>i. speaker (labels ! i))
                 (turn_trace (word_end_pos F spaces word_ts) labels (Suc j) pe idx (length rest))"
      and a3: "map word riva' = map word (riva @ [add_json_to_dict F (words ! j) w (speaker cur)])
             @ take (length rest) (drop (Suc j) words)"
      and a4: "rest \<noteq> [] \<longrightarrow> Suc j + length rest \<le> length words"
      and a5: "idx' = last (idx # turn_trace (word_end_pos F spaces word_ts) labels (Suc j) pe idx (length rest))"
      and a6: "length (filter is_print_time out')
                 = length (filter is_print_time (out @ [PrintWord (words ! j)])) + (idx' - idx)"
      and a7: "idx \<le> idx'"
      by blast+
    show ?thesis
      unfolding tt
    proof (intro conjI)
      show "list_all (\<lambda>i. i < length labels)
              (idx # turn_trace (word_end_pos F spaces word_ts) labels (Suc j) pe idx (length rest))"
        using a1 Cons.prems(3) by simp
      show "map speaker_label riva' = map speaker_label riva @ map (\<lambda>i. speaker (labels ! i))
              (idx # turn_trace (word_end_pos F spaces word_ts) labels (Suc j) pe idx (length rest))"
        using a2 sl by simp
      show "map word riva' = map word riva @ take (length (w # rest)) (drop j words)"
        using a3 wd dw by simp
      show "w # rest \<noteq> [] \<longrightarrow> j + length (w # rest) \<le> length words"
        using a4 jw by (cases "rest = []") simp_all
      show "idx' = last (idx # idx # turn_trace (word_end_pos F spaces word_ts) labels (Suc j) pe idx (length rest))"
        using a5 by simp
      show "length (filter is_print_time out') = length (filter is_print_time out) + (idx' - idx)"
        using a6 by simp
      show "idx \<le> idx'" by (rule a7)
    qed
  next
    case False
    with Cons.prems(1) js have sidx: "Suc idx < length labels"
      by (auto simp: Let_def split: if_splits)
    with False Cons.prems(1) js jw have l:
      "attr_loop F labels spaces words (Suc j) rest
         (pe, Suc idx, labels ! Suc idx,
          out @ [PrintTime (labels ! Suc idx), PrintWord (words ! j)],
          riva @ [add_json_to_dict F (words ! j) w (speaker (labels ! Suc idx))])
       = Inr (pos', idx', cur', out', riva')"
      by (simp add: Let_def pe)
    have tt: "turn_trace (word_end_pos F spaces word_ts) labels j pos_prev idx (length (w # rest))
                = Suc idx # turn_trace (word_end_pos F spaces word_ts) labels (Suc j) pe (Suc idx) (length rest)"
      using False Cons.prems(4) by (simp add: pe_def)
    note ih = Cons.IH[OF l rest sidx refl]
    have sl: "speaker_label (add_json_to_dict F (words ! j) w (speaker (labels ! Suc idx)))
                = speaker (labels ! Suc idx)"
      and wd: "word (add_json_to_dict F (words ! j) w (speaker (labels ! Suc idx))) = words ! j"
      by (simp_all add: add_json_to_dict_def)
    from ih have a1: "list_all (\<lambda>i. i < length labels)
           (turn_trace (word_end_pos F spaces word_ts) labels (Suc j) pe (Suc idx) (length rest))"
      and a2: "map speaker_label riva'
           = map speaker_label (riva @ [add_json_to_dict F (words ! j) w (speaker (labels ! Suc idx))])
             @ map (\<lambda>i. speaker (labels ! i))
                 (turn_trace (word_end_pos F spaces word_ts) labels (Suc j) pe (Suc idx) (length rest))"
      and a3: "map word riva'
           = map word (riva @ [add_json_to_dict F (words ! j) w (speaker (labels ! Suc idx))])
             @ take (length rest) (drop (Suc j) words)"
      and a4: "rest \<noteq> [] \<longrightarrow> Suc j + length rest \<le> length words"
      and a5: "idx' = last (Suc idx # turn_trace (word_end_pos F spaces word_ts) labels (Suc j) pe (Suc idx) (length rest))"
      and a6: "length (filter is_print_time out')
                 = length (filter is_print_time
                     (out @ [PrintTime (labels ! Suc idx), PrintWord (words ! j)])) + (idx' - Suc idx)"
      and a7: "Suc idx \<le> idx'"
      by blast+
    show ?thesis
      unfolding tt
    proof (intro conjI)
      show "list_all (\<lambda>i. i < length labels)
              (Suc idx # turn_trace (word_end_pos F spaces word_ts) labels (Suc j) pe (Suc idx) (length rest))"
        using a1 sidx by simp
      show "map speaker_label riva' = map speaker_label riva @ map (\<lambda>i. speaker (labels ! i))
              (Suc idx # turn_trace (word_end_pos F spaces word_ts) labels (Suc j) pe (Suc idx) (length rest))"
        using a2 sl by simp
      show "map word riva' = map word riva @ take (length (w # rest)) (drop j words)"
        using a3 wd dw by simp
      show "w # rest \<noteq> [] \<longrightarrow> j + length (w # rest) \<le> length words"
        using a4 jw by (cases "rest = []") simp_all
      show "idx' = last (idx # Suc idx # turn_trace (word_end_pos F spaces word_ts) labels (Suc j) pe (Suc idx) (length rest))"
        using a5 by simp
      show "length (filter is_print_time out') = length (filter is_print_time out) + (idx' - idx)"
        using a6 a7 by simp
      show "idx \<le> idx'" using a7 by simp
    qed
  qed
qed

lemma utt_trace:
  assumes "write_json_and_transcript_utt F labels spaces words word_ts = Inr (string_out, riva)"
  shows "list_all (\<lambda>i. i < length labels)
           (turn_trace (word_end_pos F spaces word_ts) labels 0 0 0 (length word_ts))
       \<and> map speaker_label riva
           = map (\<lambda>i. speaker (labels ! i))
               (turn_trace (word_end_pos F spaces word_ts) labels 0 0 0 (length word_ts))
       \<and> map word riva = take (length word_ts) words
       \<and> length (filter is_print_time string_out)
           = Suc (last (0 # turn_trace (word_end_pos F spaces word_ts) labels 0 0 0 (length word_ts)))"
proof -
  from assms obtain l0 ls where labels: "labels = l0 # ls"
    by (cases labels) (auto simp: write_json_and_transcript_utt_def)
  from assms labels obtain pos' idx' cur' where
    l: "attr_loop F labels spaces words 0 word_ts (0, 0, l0, [PrintTime l0], [])
          = Inr (pos', idx', cur', string_out, riva)"
    by (auto simp: write_json_and_transcript_utt_def split: sum.splits)
  have "0 < length labels" and "l0 = labels ! 0" by (simp_all add: labels)
  from attr_loop_trace[OF l _ this, of word_ts] show ?thesis
    by simp
qed

lemma turn_trace_step:
  "m < n \<Longrightarrow>
     turn_trace pos labels j p idx n ! m
       = (if m = 0 then idx else turn_trace pos labels j p idx n ! (m - 1))
         + (if (if m = 0 then p else pos (j + m - 1))
                 < end_point (labels ! (if m = 0 then idx else turn_trace pos labels j p idx n ! (m - 1)))
            then 0 else 1)"
proof (induction n arbitrary: m j p idx)
  case 0
  then show ?case by simp
next
  case (Suc n)
  show ?case
  proof (cases m)
    case 0
    then show ?thesis by (simp add: Let_def)
  next
    case (Suc m')
    with Suc.prems have m': "m' < n" by simp
    define idx1 where "idx1 = (if p < end_point (labels ! idx) then idx else Suc idx)"
    have tt: "turn_trace pos labels j p idx (Suc n) = idx1 # turn_trace pos labels (Suc j) (pos j) idx1 n"
      by (simp add: idx1_def Let_def)
    from Suc.IH[OF m', of "Suc j" "pos j" idx1] show ?thesis
      unfolding tt Suc by (cases m') (simp_all)
  qed
qed

lemma length_turn_trace: "length (turn_trace pos labels j p idx n) = n"
  by (induction n arbitrary: j p idx) (simp_all add: Let_def)






lemma utt_turn_trace:
  assumes "write_json_and_transcript_utt F labels spaces words word_ts = Inr (string_out, riva)"
  shows "\<exists>tr. tr = turn_trace (word_end_pos F spaces word_ts) labels 0 0 0 (length word_ts)
           \<and> length tr = length word_ts
           \<and> list_all (\<lambda>i. i < length labels) tr
           \<and> map speaker_label riva = map (\<lambda>i. speaker (labels ! i)) tr
           \<and> map word riva = take (length word_ts) words
           \<and> length (filter is_print_time string_out) = Suc (last (0 # tr))
           \<and> (\<forall>m < length word_ts.
                 tr ! m = (if m = 0 then 0 else tr ! (m - 1))
                          + (if (if m = 0 then 0 else word_end_pos F spaces word_ts (m - 1))
                                  < end_point (labels ! (if m = 0 then 0 else tr ! (m - 1)))
                             then 0 else 1))"
proof -
  define tr where "tr = turn_trace (word_end_pos F spaces word_ts) labels 0 0 0 (length word_ts)"
  have step: "\<forall>m < length word_ts.
                 tr ! m = (if m = 0 then 0 else tr ! (m - 1))
                          + (if (if m = 0 then 0 else word_end_pos F spaces word_ts (m - 1))
                                  < end_point (labels ! (if m = 0 then 0 else tr ! (m - 1)))
                             then 0 else 1)"
  proof (intro allI impI)
    fix m assume "m < length word_ts"
    from turn_trace_step[OF this, of "word_end_pos F spaces word_ts" labels 0 0 0]
    show "tr ! m = (if m = 0 then 0 else tr ! (m - 1))
                          + (if (if m = 0 then 0 else word_end_pos F spaces word_ts (m - 1))
                                  < end_point (labels ! (if m = 0 then 0 else tr ! (m - 1)))
                             then 0 else 1)"
      by (simp add: tr_def)
  qed
  have len: "length tr = length word_ts"
    by (simp add: tr_def length_turn_trace)
  note facts = utt_trace[OF assms, folded tr_def]
  from facts have f1: "list_all (\<lambda>i. i < length labels) tr"
    and f2: "map speaker_label riva = map (\<lambda>i. speaker (labels ! i)) tr"
    and f3: "map word riva = take (length word_ts) words"
    and f4: "length (filter is_print_time string_out) = Suc (last (0 # tr))"
    by blast+
  show ?thesis
    unfolding tr_def[symmetric]
    by (rule exI[of _ tr]) (intro conjI refl len f1 f2 f3 f4 step)
qed

text \<open>
  Claim C3, as amended. For each word in order, the speaker attributor compares the
  position at which the previous word ended (0 before the first word, afterwards the float
  that line 373 computes from the boundary after that word) with the end of the current
  turn: when the position is below it the pointer stays, otherwise the pointer moves on
  by exactly one turn and one header is written; the word is given the speaker of the
  turn at the pointer. So, whenever the attributor returns, the pointer has moved at most
  once per word, whatever the time of the word itself. In the example of the
  specification, with times in frames, both \<open>hi\<close> and \<open>there\<close> are given to \<open>A\<close>.
\<close>

theorem attribution_follows_turn_trace:
  "(write_json_and_transcript_utt F labels spaces words word_ts = Inr (string_out, riva)
     \<longrightarrow> (\<exists>tr. tr = turn_trace (word_end_pos F spaces word_ts) labels 0 0 0 (length word_ts)
           \<and> length tr = length word_ts
           \<and> list_all (\<lambda>i. i < length labels) tr
           \<and> map speaker_label riva = map (\<lambda>i. speaker (labels ! i)) tr
           \<and> map word riva = take (length word_ts) words
           \<and> length (filter is_print_time string_out) = Suc (last (0 # tr))
           \<and> (\<forall>m < length word_ts.
                 tr ! m = (if m = 0 then 0 else tr ! (m - 1))
                          + (if (if m = 0 then 0 else word_end_pos F spaces word_ts (m - 1))
                                  < end_point (labels ! (if m = 0 then 0 else tr ! (m - 1)))
                             then 0 else 1))))
   \<and> write_json_and_transcript_utt frame_ops turns_AB [(10, 11)] [''hi'', ''there'']
         [(0, 10), (11, 20)]
       = Inr ([PrintTime \<lparr>start_point = 0, end_point = 15, speaker = ''A''\<rparr>,
               PrintWord ''hi'', PrintWord ''there''],
              [\<lparr>word = ''hi'', start_time = 0, end_time = 10, speaker_label = ''A''\<rparr>,
               \<lparr>word = ''there'', start_time = 11, end_time = 20, speaker_label = ''A''\<rparr>])"
proof (rule conjI)
  show "write_json_and_transcript_utt F labels spaces words word_ts = Inr (string_out, riva)
     \<longrightarrow> (\<exists>tr. tr = turn_trace (word_end_pos F spaces word_ts) labels 0 0 0 (length word_ts)
           \<and> length tr = length word_ts
           \<and> list_all (\<lambda>i. i < length labels) tr
           \<and> map speaker_label riva = map (\<lambda>i. speaker (labels ! i)) tr
           \<and> map word riva = take (length word_ts) words
           \<and> length (filter is_print_time string_out) = Suc (last (0 # tr))
           \<and> (\<forall>m < length word_ts.
                 tr ! m = (if m = 0 then 0 else tr ! (m - 1))
                          + (if (if m = 0 then 0 else word_end_pos F spaces word_ts (m - 1))
                                  < end_point (labels ! (if m = 0 then 0 else tr ! (m - 1)))
                             then 0 else 1)))"
    by (rule impI) (rule utt_turn_trace)
next
  show "write_json_and_transcript_utt frame_ops turns_AB [(10, 11)] [''hi'', ''there'']
         [(0, 10), (11, 20)]
       = Inr ([PrintTime \<lparr>start_point = 0, end_point = 15, speaker = ''A''\<rparr>,
               PrintWord ''hi'', PrintWord ''there''],
              [\<lparr>word = ''hi'', start_time = 0, end_time = 10, speaker_label = ''A''\<rparr>,
               \<lparr>word = ''there'', start_time = 11, end_time = 20, speaker_label = ''A''\<rparr>])"
    by (simp add: write_json_and_transcript_utt_def frame_ops_def turns_AB_def
          add_json_to_dict_def)
qed

theorem attribution_follows_turn_trace_witness:
  "write_json_and_transcript_utt frame_ops turns_AB [(10, 11), (20, 22)]
       [''hi'', ''there'', ''you''] [(0, 10), (11, 20), (22, 40)]
     = Inr ([PrintTime \<lparr>start_point = 0, end_point = 15, speaker = ''A''\<rparr>,
             PrintWord ''hi'', PrintWord ''there'',
             PrintTime \<lparr>start_point = 15, end_point = 30, speaker = ''B''\<rparr>,
             PrintWord ''you''],
            [\<lparr>word = ''hi'', start_time = 0, end_time = 10, speaker_label = ''A''\<rparr>,
             \<lparr>word = ''there'', start_time = 11, end_time = 20, speaker_label = ''A''\<rparr>,
             \<lparr>word = ''you'', start_time = 22, end_time = 40, speaker_label = ''B''\<rparr>])
   \<and> turn_trace (word_end_pos frame_ops [(10, 11), (20, 22)] [(0, 10), (11, 20), (22, 40)])
        turns_AB 0 0 0 3 = [0, 0, 1]"
proof -
  have v: "write_json_and_transcript_utt frame_ops turns_AB [(10, 11), (20, 22)]
       [''hi'', ''there'', ''you''] [(0, 10), (11, 20), (22, 40)]
     = Inr ([PrintTime \<lparr>start_point = 0, end_point = 15, speaker = ''A''\<rparr>,
             PrintWord ''hi'', PrintWord ''there'',
             PrintTime \<lparr>start_point = 15, end_point = 30, speaker = ''B''\<rparr>,
             PrintWord ''you''],
            [\<lparr>word = ''hi'', start_time = 0, end_time = 10, speaker_label = ''A''\<rparr>,
             \<lparr>word = ''there'', start_time = 11, end_time = 20, speaker_label = ''A''\<rparr>,
             \<lparr>word = ''you'', start_time = 22, end_time = 40, speaker_label = ''B''\<rparr>])"
    by (simp add: write_json_and_transcript_utt_def frame_ops_def turns_AB_def
          add_json_to_dict_def)
  have t: "turn_trace (word_end_pos frame_ops [(10, 11), (20, 22)] [(0, 10), (11, 20), (22, 40)])
        turns_AB 0 0 0 3 = [0, 0, 1]"
    by (simp add: numeral_3_eq_3 word_end_pos_def frame_ops_def turns_AB_def)
  from attribution_follows_turn_trace[THEN conjunct1, THEN mp, OF v] v t show ?thesis by blast
qed

text \<open>
  The claim as the specification states it gives the word \<open>there\<close> of its example to the
  speaker \<open>B\<close>. With times in frames (stride 1, offset 0) the word \<open>hi\<close> ends at 10.5,
  before the end of the first turn, so the pointer stays and \<open>there\<close> is given to \<open>A\<close>.
\<close>

theorem example_there_is_given_to_A:
  "write_json_and_transcript_utt frame_ops turns_AB [(10, 11)] [''hi'', ''there'']
       [(0, 10), (11, 20)]
     = Inr ([PrintTime \<lparr>start_point = 0, end_point = 15, speaker = ''A''\<rparr>,
             PrintWord ''hi'', PrintWord ''there''],
            [\<lparr>word = ''hi'', start_time = 0, end_time = 10, speaker_label = ''A''\<rparr>,
             \<lparr>word = ''there'', start_time = 11, end_time = 20, speaker_label = ''A''\<rparr>])"
  by (simp add: write_json_and_transcript_utt_def frame_ops_def turns_AB_def
        add_json_to_dict_def)




section \<open>The alignment scorer\<close>

lemma eval_loop_append:
  "eval_loop E output_dir (fs @ gs) st =
     (case eval_loop E output_dir fs st of Inl e \<Rightarrow> Inl e | Inr st' \<Rightarrow> eval_loop E output_dir gs st')"
proof (induction fs arbitrary: st)
  case Nil
  then show ?case by simp
next
  case (Cons f fs)
  obtain ls b where st: "st = (ls, b)" by (cases st)
  show ?case
    unfolding st by (simp add: Cons.IH Let_def split: option.splits)
qed

lemma eval_loop_single:
  assumes "eval_loop E output_dir [f] (ls, b) = Inr (ls', b')"
  shows "\<exists>l refs hyps. ls' = ls @ [l] \<and> b' = Some (refs, hyps)
           \<and> eval_loop E output_dir [f] ([], None) = Inr ([l], Some (refs, hyps))"
  using assms by (auto simp: Let_def split: option.splits)

lemma eval_last_only:
  assumes "eval_diarization E (fs @ [f]) output_dir = Inr (labels, m)"
  shows "\<exists>l. eval_diarization E [f] output_dir = Inr ([l], m)"
proof -
  from assms obtain st where a: "eval_loop E output_dir fs ([], None) = Inr st"
    by (auto simp: eval_diarization_def eval_loop_append split: sum.splits)
  obtain ls b where st: "st = (ls, b)" by (cases st)
  from assms a st obtain ls' b' where b: "eval_loop E output_dir [f] (ls, b) = Inr (ls', b')"
    by (auto simp: eval_diarization_def eval_loop_append split: sum.splits)
  from eval_loop_single[OF b] obtain l refs hyps where
    c: "ls' = ls @ [l]" "b' = Some (refs, hyps)"
       "eval_loop E output_dir [f] ([], None) = Inr ([l], Some (refs, hyps))"
    by blast
  from assms a st b c have "m = get_DER E refs hyps"
    by (simp add: eval_diarization_def eval_loop_append)
  with c(3) show ?thesis
    by (simp add: eval_diarization_def)
qed

lemma demo_uniq_ids:
  "get_uniq_id_from_audio_path ''x/a.wav'' = ''a''"
  "get_uniq_id_from_audio_path ''x/b.wav'' = ''b''"
  by (simp_all add: get_uniq_id_from_audio_path_def basename_def)

text \<open>
  Claim C1. The alignment scorer sums the durations of false alarm, miss and confusion
  over all the utterances of the batch before it takes the ratios. The code breaks the
  claim: \<^verbatim>\<open>eval_diarization\<close> empties \<^verbatim>\<open>all_references\<close> and \<^verbatim>\<open>all_hypotheses\<close> in
  every turn of its loop, so \<^verbatim>\<open>get_DER\<close> is given the last utterance only, and the
  numbers it logs as cumulative are those of scoring the last file alone.
\<close>

theorem eval_diarization_scores_last_file_only:
  assumes "eval_diarization E (fs @ [f]) output_dir = Inr (labels, m)"
  shows "\<exists>l. eval_diarization E [f] output_dir = Inr ([l], m)"
  using assms by (rule eval_last_only)

theorem eval_diarization_scores_last_file_only_witness:
  "eval_diarization demo_env [''x/a.wav'', ''x/b.wav''] ''out''
     = Inr ([''hyp a'', ''hyp b''], ([''ref b''], [''hyp b'']))
   \<and> eval_diarization demo_env [''x/b.wav''] ''out''
     = Inr ([''hyp b''], ([''ref b''], [''hyp b'']))"
proof -
  have a: "eval_diarization demo_env ([''x/a.wav''] @ [''x/b.wav'']) ''out''
             = Inr ([''hyp a'', ''hyp b''], ([''ref b''], [''hyp b'']))"
    by (simp add: eval_diarization_def demo_env_def demo_uniq_ids pred_rttm_path_def
          path_join2_def Let_def)
  from eval_diarization_scores_last_file_only[OF a]
  obtain l where b: "eval_diarization demo_env [''x/b.wav''] ''out''
                       = Inr ([l], ([''ref b''], [''hyp b'']))"
    by blast
  have "eval_diarization demo_env [''x/b.wav''] ''out''
          = Inr ([''hyp b''], ([''ref b''], [''hyp b'']))"
    by (simp add: eval_diarization_def demo_env_def demo_uniq_ids pred_rttm_path_def
          path_join2_def Let_def)
  with a b show ?thesis by simp
qed

end
